theory Spec2Isabelle
  imports Main "HOL-Library.Word" "HOL-Library.Multiset"
begin

text \<open>
  The large-file upload SDK (\<open>FileUploader\<close>): the retry executor, the fingerprint provider,
  the state machine of one file with its pool of chunk workers, and the orchestrator with
  its queue, embedded as functions on explicit states, with the properties proved of them.
\<close>

section \<open>Platform values\<close>

text \<open>
  A thrown JavaScript value as the uploader distinguishes it: the \<open>DOMException\<close> named
  \<open>AbortError\<close> that an aborted \<open>fetch\<close> rejects with, or any other error, kept with its
  message.
\<close>

datatype js_error = AbortError | Err string

text \<open>
  How a \<open>fetch\<close> settles: with a response (HTTP status and parsed body) or with a rejection.
\<close>

datatype 'a fetch_outcome = Response nat 'a | Rejected js_error

definition ok :: "nat \<Rightarrow> bool" where
  "ok st = (200 \<le> st \<and> st \<le> 299)"

definition digit_char :: "nat \<Rightarrow> char" where
  "digit_char d = (if d = 0 then CHR ''0'' else if d = 1 then CHR ''1''
     else if d = 2 then CHR ''2'' else if d = 3 then CHR ''3''
     else if d = 4 then CHR ''4'' else if d = 5 then CHR ''5''
     else if d = 6 then CHR ''6'' else if d = 7 then CHR ''7''
     else if d = 8 then CHR ''8'' else CHR ''9'')"

fun string_of_nat :: "nat \<Rightarrow> string" where
  "string_of_nat n =
     (if n < 10 then [digit_char n] else string_of_nat (n div 10) @ [digit_char (n mod 10)])"

declare string_of_nat.simps [simp del]

text \<open>The error of \<open>throw new Error(`HTTP error! status: ${response.status}`)\<close>.\<close>

definition http_error :: "nat \<Rightarrow> js_error" where
  "http_error st = Err (''HTTP error! status: '' @ string_of_nat st)"

section \<open>Retry executor: \<open>uploadWithRetry\<close>\<close>

text \<open>
  What the loop does that an observer can see: it calls the operation (attempt \<open>i\<close>) and it
  sleeps (milliseconds).
\<close>

datatype retry_effect = Attempt nat | Sleep nat

definition backoff_delay :: "nat \<Rightarrow> nat" where
  "backoff_delay i = min (1000 * 2 ^ i) 10000"

text \<open>
  The body of the \<open>try\<close>: await the operation; a response that is not \<open>ok\<close> is thrown as an
  HTTP error; otherwise the response (its status) is returned.
\<close>

definition attempt :: "'a fetch_outcome \<Rightarrow> js_error + nat" where
  "attempt out = (case out of
       Rejected e \<Rightarrow> Inl e
     | Response st b \<Rightarrow> if ok st then Inr st else Inl (http_error st))"

text \<open>
  The \<open>for\<close> loop from iteration \<open>i\<close>. \<open>fn i\<close> is how the \<open>i\<close>-th call of the operation
  settles and \<open>aborted i\<close> is \<open>signal.aborted\<close> as read at the head of iteration \<open>i\<close>.
  \<open>lastError\<close> is \<open>None\<close> while the variable is still \<open>undefined\<close>. The result is the thrown
  value (\<open>Inl\<close>) or the response (\<open>Inr\<close>), with the effects in order.
\<close>

function retry_loop ::
  "(nat \<Rightarrow> 'a fetch_outcome) \<Rightarrow> (nat \<Rightarrow> bool) \<Rightarrow> nat \<Rightarrow> nat \<Rightarrow> js_error option
     \<Rightarrow> retry_effect list \<Rightarrow> (js_error option + nat) \<times> retry_effect list" where
  "retry_loop fn aborted maxRetries i lastError tr =
     (if maxRetries < i then (Inl lastError, tr)
      else if aborted i then (Inl (Some AbortError), tr)
      else (case attempt (fn i) of
              Inr r \<Rightarrow> (Inr r, tr @ [Attempt i])
            | Inl e \<Rightarrow>
                if e = AbortError then (Inl (Some AbortError), tr @ [Attempt i])
                else retry_loop fn aborted maxRetries (Suc i) (Some e)
                       (tr @ [Attempt i] @
                          (if i < maxRetries then [Sleep (backoff_delay i)] else []))))"
  by pat_completeness auto
termination
  by (relation "measure (\<lambda>(fn, aborted, maxRetries, i, lastError, tr). Suc maxRetries - i)") auto

declare retry_loop.simps [simp del]

definition uploadWithRetry ::
  "(nat \<Rightarrow> 'a fetch_outcome) \<Rightarrow> (nat \<Rightarrow> bool) \<Rightarrow> nat
     \<Rightarrow> (js_error option + nat) \<times> retry_effect list" where
  "uploadWithRetry fn aborted maxRetries = retry_loop fn aborted maxRetries 0 None []"

text \<open>The effects of \<open>k\<close> failed attempts from \<open>i\<close> on, each followed by its back-off sleep.\<close>

definition failed_rounds :: "nat \<Rightarrow> nat \<Rightarrow> retry_effect list" where
  "failed_rounds i k = concat (map (\<lambda>j. [Attempt j, Sleep (backoff_delay j)]) [i..<k])"

definition attempts :: "retry_effect list \<Rightarrow> nat list" where
  "attempts tr = concat (map (\<lambda>e. case e of Attempt i \<Rightarrow> [i] | Sleep d \<Rightarrow> []) tr)"

definition sleeps :: "retry_effect list \<Rightarrow> nat list" where
  "sleeps tr = concat (map (\<lambda>e. case e of Attempt i \<Rightarrow> [] | Sleep d \<Rightarrow> [d]) tr)"

section \<open>Fingerprint provider\<close>

type_synonym byte = "8 word"

record File =
  file_name :: string
  file_bytes :: "byte list"

definition file_size :: "File \<Rightarrow> nat" where
  "file_size f = length (file_bytes f)"

text \<open>\<open>file.slice(start, end)\<close>.\<close>

definition slice :: "byte list \<Rightarrow> nat \<Rightarrow> nat \<Rightarrow> byte list" where
  "slice bs start fin = take (fin - start) (drop start bs)"

text \<open>
  \<open>calculateMD5Fallback\<close>: after the timer, \<open>'md5-' + Date.now() + '-' + file.name\<close>.
  \<open>now\<close> is the value \<open>Date.now()\<close> returns when the timer fires.
\<close>

definition calculateMD5Fallback :: "nat \<Rightarrow> File \<Rightarrow> string" where
  "calculateMD5Fallback now f = ''md5-'' @ string_of_nat now @ ''-'' @ file_name f"

text \<open>
  The worker's reading loop \<open>loadNextChunk\<close>: the slice of chunk \<open>currentChunk\<close> is appended,
  \<open>currentChunk\<close> is incremented, and the loop goes on while \<open>currentChunk < totalChunks\<close>.
  \<open>fuel\<close> bounds the number of further reads (the loop reads at most \<open>totalChunks\<close> slices
  after the first).
\<close>

definition ceil_div :: "nat \<Rightarrow> nat \<Rightarrow> nat" where
  "ceil_div n d = (n + d - 1) div d"

fun loadNextChunk :: "nat \<Rightarrow> nat \<Rightarrow> byte list \<Rightarrow> nat \<Rightarrow> byte list list" where
  "loadNextChunk 0 chunkSize bs currentChunk =
     [slice bs (currentChunk * chunkSize) (min (currentChunk * chunkSize + chunkSize) (length bs))]"
| "loadNextChunk (Suc fuel) chunkSize bs currentChunk =
     slice bs (currentChunk * chunkSize) (min (currentChunk * chunkSize + chunkSize) (length bs))
       # (if Suc currentChunk < ceil_div (length bs) chunkSize
          then loadNextChunk fuel chunkSize bs (Suc currentChunk) else [])"

text \<open>
  Where \<open>calculateMD5\<close> runs: no \<open>Worker\<close> in the environment, a \<open>Worker\<close> whose creation
  throws, a worker that reports an error (its message), or a worker that hashes the file.
\<close>

datatype worker_env = NoWorker | WorkerInitThrows | WorkerError string | WorkerHashes

text \<open>
  \<open>calculateMD5\<close>. SparkMD5 is loaded from outside the repository: \<open>spark\<close> stands for the
  digest it computes of the bytes appended to it, in order.
\<close>

definition calculateMD5 ::
  "(byte list \<Rightarrow> string) \<Rightarrow> worker_env \<Rightarrow> nat \<Rightarrow> nat \<Rightarrow> File \<Rightarrow> js_error + string" where
  "calculateMD5 spark env now chunkSize f = (case env of
       NoWorker \<Rightarrow> Inr (calculateMD5Fallback now f)
     | WorkerInitThrows \<Rightarrow> Inr (calculateMD5Fallback now f)
     | WorkerError m \<Rightarrow> Inl (Err m)
     | WorkerHashes \<Rightarrow>
         Inr (spark (concat (loadNextChunk (ceil_div (file_size f) chunkSize) chunkSize
                               (file_bytes f) 0))))"

section \<open>Data model\<close>

datatype status = Pending | Checking | Uploading | Merging | Success | Error | Cancelled

text \<open>
  \<open>FileItem\<close>, as \<open>addFiles\<close> builds it. \<open>generateId\<close> (a time stamp and a random number,
  documented as "Generate unique ID") is modelled by the number of items created before:
  identifiers are unique.
\<close>

record FileItem =
  id_f :: nat
  file_f :: File
  status :: status
  progress :: nat
  name :: string
  size_f :: nat
  uploadedChunks :: "nat list"
  totalChunks :: nat
  md5 :: "string option"
  error :: "string option"

record CheckFileResponse =
  exists_r :: bool
  path_r :: "string option"
  uploadedChunks_r :: "nat list"

record MergeFileResponse =
  success :: bool
  path_m :: "string option"

record FormData =
  fd_file :: "byte list"
  fd_md5 :: "string option"
  fd_chunkIndex :: nat
  fd_totalChunks :: nat

text \<open>
  The options of the constructor and the configuration it stores. The counts are natural
  numbers; \<open>options.x || d\<close> takes the default when the option is absent or \<open>0\<close>.
\<close>

record FileUploaderOptions =
  opt_checkEndpoint :: "string option"
  opt_chunkEndpoint :: "string option"
  opt_mergeEndpoint :: "string option"
  opt_chunkSize :: "nat option"
  opt_concurrentFiles :: "nat option"
  opt_concurrentChunks :: "nat option"
  opt_maxRetries :: "nat option"

record config =
  chunkSize :: nat
  concurrentFiles :: nat
  concurrentChunks :: nat
  maxRetries :: nat

definition or_default :: "nat option \<Rightarrow> nat \<Rightarrow> nat" where
  "or_default v d = (case v of None \<Rightarrow> d | Some n \<Rightarrow> if n = 0 then d else n)"

definition falsy :: "string option \<Rightarrow> bool" where
  "falsy v = (case v of None \<Rightarrow> True | Some x \<Rightarrow> x = [])"

definition make_config :: "FileUploaderOptions \<Rightarrow> config" where
  "make_config opts =
     \<lparr>chunkSize = or_default (opt_chunkSize opts) (2 * 1024 * 1024),
      concurrentFiles = or_default (opt_concurrentFiles opts) 3,
      concurrentChunks = or_default (opt_concurrentChunks opts) 3,
      maxRetries = or_default (opt_maxRetries opts) 3\<rparr>"

text \<open>
  JavaScript numbers are IEEE 754 double-precision values, and \<open>/\<close> and \<open>*\<close> round their
  exact result to the nearest such value, ties to the even significand. A finite
  non-negative value is kept here as a fraction of two integers. \<open>binary64 a b\<close> is the
  value nearest to \<open>a / b\<close>: the fraction is scaled until its integer part has 53 bits,
  that integer is rounded, and the scaling is undone. (The exponent is not bounded here;
  the quotients and products below are far from the subnormal range and from overflow.)
\<close>

definition round_half_even :: "int \<Rightarrow> int \<Rightarrow> int" where
  "round_half_even a b =
     (let q = a div b; r = a mod b
      in if 2 * r < b then q else if b < 2 * r then q + 1 else if even q then q else q + 1)"

function binary64 :: "int \<Rightarrow> int \<Rightarrow> int \<times> int" where
  "binary64 a b =
     (if a \<le> 0 \<or> b \<le> 0 then (0, 1)
      else if a < 2 ^ 52 * b then (let (n, d) = binary64 (2 * a) b in (n, 2 * d))
      else if 2 * (2 ^ 52 * b) \<le> a then (let (n, d) = binary64 a (2 * b) in (2 * n, d))
      else (round_half_even a b, 1))"
  by pat_completeness auto

termination
proof (relation "measure (\<lambda>(a, b). nat (2 ^ 52 * b - a) + nat (a + 1 - 2 * (2 ^ 52 * b)))")
  show "wf (measure (\<lambda>(a, b). nat (2 ^ 52 * b - a) + nat (a + 1 - 2 * (2 ^ 52 * b))))"
    by (rule wf_measure)
next
  fix a b :: int
  assume h: "\<not> (a \<le> 0 \<or> b \<le> 0)" "a < 2 ^ 52 * b"
  have up: "nat (p - 2 * a) + nat (2 * a + 1 - 2 * p) < nat (p - a) + nat (a + 1 - 2 * p)"
    if "0 < a" and "a < p" for p :: int
    using that by simp
  from h(1) have "0 < a" by simp
  from up [OF this h(2)]
  show "((2 * a, b), (a, b))
      \<in> measure (\<lambda>(a, b). nat (2 ^ 52 * b - a) + nat (a + 1 - 2 * (2 ^ 52 * b)))"
    by (simp only: in_measure prod.case)
next
  fix a b :: int
  assume h: "\<not> (a \<le> 0 \<or> b \<le> 0)" "\<not> a < 2 ^ 52 * b" "2 * (2 ^ 52 * b) \<le> a"
  have down: "nat (2 * p - a) + nat (a + 1 - 2 * (2 * p)) < nat (p - a) + nat (a + 1 - 2 * p)"
    if "0 < p" and "2 * p \<le> a" for p :: int
    using that by simp
  from h(1) have "0 < b" by simp
  then have "0 < (2::int) ^ 52 * b" by simp
  from down [OF this h(3)]
  have "nat (2 * (2 ^ 52 * b) - a) + nat (a + 1 - 2 * (2 * (2 ^ 52 * b)))
      < nat (2 ^ 52 * b - a) + nat (a + 1 - 2 * (2 ^ 52 * b))" .
  moreover have "(2::int) ^ 52 * (2 * b) = 2 * (2 ^ 52 * b)" by (simp only: mult.left_commute)
  ultimately
  show "((a, 2 * b), (a, b))
      \<in> measure (\<lambda>(a, b). nat (2 ^ 52 * b - a) + nat (a + 1 - 2 * (2 ^ 52 * b)))"
    by (simp only: in_measure prod.case)
qed

declare binary64.simps [simp del]

text \<open>\<open>Math.round(x)\<close> for \<open>x \<ge> 0\<close>: the integer nearest to \<open>x\<close>, a tie going up.\<close>

definition Math_round :: "int \<times> int \<Rightarrow> int" where
  "Math_round x = (2 * fst x + snd x) div (2 * snd x)"

text \<open>
  \<open>Math.round((k / n) * 100)\<close>: the quotient is rounded to a double, its product with 100
  is rounded again, and the result is rounded to an integer; so \<open>23\<close> of \<open>40\<close> chunks give
  \<open>57\<close>, where exact arithmetic gives \<open>57.5\<close>, rounded to \<open>58\<close>. For \<open>n = 0\<close> the quotient is
  \<open>NaN\<close> or \<open>Infinity\<close> in the source, which this model does not have; the expression is
  only evaluated after a chunk of the file has been uploaded, when \<open>totalChunks\<close> is
  positive (lemma \<open>busy_worker_totalChunks\<close>).
\<close>

definition round_percent :: "nat \<Rightarrow> nat \<Rightarrow> nat" where
  "round_percent k n =
     (let q = binary64 (int k) (int n) in nat (Math_round (binary64 (fst q * 100) (snd q))))"

definition new_item :: "config \<Rightarrow> nat \<Rightarrow> File \<Rightarrow> FileItem" where
  "new_item cfg i f =
     \<lparr>id_f = i, file_f = f, status = Pending, progress = 0, name = file_name f,
      size_f = file_size f, uploadedChunks = [],
      totalChunks = ceil_div (file_size f) (chunkSize cfg), md5 = None, error = None\<rparr>"

section \<open>File state machine: \<open>processFile\<close> and \<open>uploadChunksWithConcurrency\<close>\<close>

text \<open>
  JavaScript runs one task at a time: between two \<open>await\<close>s the code runs without
  interleaving. The state of one \<open>processFile\<close> call is therefore the item, the place where
  the call is suspended, its abort controller, and the closure of
  \<open>uploadChunksWithConcurrency\<close> (the shared cursor \<open>index\<close> and the workers). What the call
  does to the outside (status notifications, requests, timers) is recorded in \<open>effects\<close>.
  \<open>registered\<close> says that \<open>abortControllers\<close> holds the item's identifier and \<open>aborted\<close> is
  \<open>signal.aborted\<close> of the call's controller. \<open>updateFileStatus\<close> is the observer's
  callback: it reads the item and does not call back into the uploader.
\<close>

datatype pc = NotStarted | AwaitMD5 | AwaitCheck | AwaitChunks | AwaitMerge | Settled

text \<open>
  One worker of the pool: awaiting the \<open>fetch\<close> of attempt \<open>i\<close> for a chunk, sleeping
  after the failed attempt \<open>i\<close> (with \<open>lastError\<close>), finished, or rejected.
\<close>

datatype worker = WFetch nat nat | WSleep nat nat js_error | WDone | WThrown js_error

datatype effect =
    Notify FileItem
  | FetchCheck "string option" string
  | FetchChunk FormData
  | FetchMerge "string option" string nat
  | SetTimeout nat

record task =
  item :: FileItem
  pc :: pc
  registered :: bool
  aborted :: bool
  checkResult :: "CheckFileResponse option"
  chunksToUpload :: "nat list"
  index :: nat
  workers :: "worker list"
  effects :: "effect list"

definition new_task :: "config \<Rightarrow> nat \<Rightarrow> File \<Rightarrow> task" where
  "new_task cfg i f =
     \<lparr>item = new_item cfg i f, pc = NotStarted, registered = False, aborted = False,
      checkResult = None, chunksToUpload = [], index = 0, workers = [], effects = []\<rparr>"

definition emit :: "effect \<Rightarrow> task \<Rightarrow> task" where
  "emit e t = t\<lparr>effects := effects t @ [e]\<rparr>"

text \<open>\<open>this.updateFileStatus(fileItem)\<close>: the observer sees the item as it is now.\<close>

definition updateFileStatus :: "task \<Rightarrow> task" where
  "updateFileStatus t = emit (Notify (item t)) t"

definition set_status :: "status \<Rightarrow> task \<Rightarrow> task" where
  "set_status s t = t\<lparr>item := (item t)\<lparr>status := s\<rparr>\<rparr>"

text \<open>The \<open>catch\<close> clause of \<open>processFile\<close>; the call is settled after it.\<close>

definition catch_clause :: "js_error \<Rightarrow> task \<Rightarrow> task" where
  "catch_clause e t =
     (case e of
        AbortError \<Rightarrow> updateFileStatus (set_status Cancelled t)
      | Err m \<Rightarrow> updateFileStatus (t\<lparr>item := (item t)\<lparr>status := Error, error := Some m\<rparr>\<rparr>))
     \<lparr>registered := False, pc := Settled\<rparr>"

text \<open>
  \<open>fileItem.status = 'success'; fileItem.progress = 100; this.updateFileStatus(fileItem);
  this.abortControllers.delete(fileItem.id)\<close>, and the call returns.
\<close>

definition succeed :: "task \<Rightarrow> task" where
  "succeed t =
     (updateFileStatus (t\<lparr>item := (item t)\<lparr>status := Success, progress := 100\<rparr>\<rparr>))
     \<lparr>registered := False, pc := Settled\<rparr>"

text \<open>
  \<open>checkFile\<close> and \<open>mergeFile\<close> after their \<open>fetch\<close>: a response that is not \<open>ok\<close> is thrown
  as an HTTP error, otherwise the parsed body is returned.
\<close>

definition http_json :: "'a fetch_outcome \<Rightarrow> js_error + 'a" where
  "http_json out = (case out of
       Rejected e \<Rightarrow> Inl e
     | Response st b \<Rightarrow> if ok st then Inr b else Inl (http_error st))"

text \<open>The call of \<open>this.mergeFile(fileItem.md5, fileItem.file.name, fileItem.totalChunks, signal)\<close>.\<close>

definition call_mergeFile :: "task \<Rightarrow> task" where
  "call_mergeFile t =
     (emit (FetchMerge (md5 (item t)) (file_name (file_f (item t))) (totalChunks (item t))) t)
     \<lparr>pc := AwaitMerge\<rparr>"

definition set_worker :: "nat \<Rightarrow> worker \<Rightarrow> task \<Rightarrow> task" where
  "set_worker w x t = t\<lparr>workers := (workers t)[w := x]\<rparr>"

definition formData :: "config \<Rightarrow> task \<Rightarrow> nat \<Rightarrow> FormData" where
  "formData cfg t chunkIndex =
     \<lparr>fd_file = slice (file_bytes (file_f (item t))) (chunkIndex * chunkSize cfg)
         (min (chunkIndex * chunkSize cfg + chunkSize cfg) (file_size (file_f (item t)))),
      fd_md5 = md5 (item t), fd_chunkIndex = chunkIndex,
      fd_totalChunks = totalChunks (item t)\<rparr>"

text \<open>
  The head of iteration \<open>i\<close> of the retry loop inside \<open>uploadChunk\<close>, for worker \<open>w\<close>: past
  the bound \<open>lastError\<close> is thrown, an aborted signal throws \<open>AbortError\<close>, otherwise the
  request is sent and the worker awaits it.
\<close>

definition retry_head :: "config \<Rightarrow> nat \<Rightarrow> nat \<Rightarrow> nat \<Rightarrow> js_error \<Rightarrow> task \<Rightarrow> task" where
  "retry_head cfg w chunkIndex i lastError t =
     (if maxRetries cfg < i then set_worker w (WThrown lastError) t
      else if aborted t then set_worker w (WThrown AbortError) t
      else set_worker w (WFetch chunkIndex i) (emit (FetchChunk (formData cfg t chunkIndex)) t))"

text \<open>
  \<open>uploadChunk(chunkIndex)\<close> up to its first \<open>await\<close>: the abort check, then the first
  iteration of the retry loop (\<open>0 \<le> maxRetries\<close>, so \<open>lastError\<close> is not read there).
\<close>

definition uploadChunk :: "config \<Rightarrow> nat \<Rightarrow> nat \<Rightarrow> task \<Rightarrow> task" where
  "uploadChunk cfg w chunkIndex t =
     (if aborted t then set_worker w (WThrown AbortError) t
      else retry_head cfg w chunkIndex 0 AbortError t)"

text \<open>
  The head of the \<open>while\<close> loop of worker \<open>w\<close>: claim the next index and upload it, or finish.
\<close>

definition worker_loop :: "config \<Rightarrow> nat \<Rightarrow> task \<Rightarrow> task" where
  "worker_loop cfg w t =
     (if index t < length (chunksToUpload t) \<and> \<not> aborted t
      then uploadChunk cfg w (chunksToUpload t ! index t) (t\<lparr>index := Suc (index t)\<rparr>)
      else set_worker w WDone t)"

text \<open>
  \<open>uploadChunk\<close> after its upload returned: record the index, recompute the progress,
  notify; then the worker is back at the head of its loop.
\<close>

definition chunk_uploaded :: "config \<Rightarrow> nat \<Rightarrow> nat \<Rightarrow> task \<Rightarrow> task" where
  "chunk_uploaded cfg w chunkIndex t =
     (let us = uploadedChunks (item t) @ [chunkIndex];
          t1 = t\<lparr>item := (item t)\<lparr>uploadedChunks := us,
                 progress := round_percent (length us) (totalChunks (item t))\<rparr>\<rparr>
      in worker_loop cfg w (updateFileStatus t1))"

text \<open>
  \<open>await Promise.all(workers)\<close> and what follows it in \<open>uploadChunksWithConcurrency\<close> and
  \<open>processFile\<close>. While \<open>processFile\<close> is suspended there: a rejected worker rejects the
  whole, which lands in the \<open>catch\<close> clause; when every worker has finished, an aborted
  signal throws, otherwise the status becomes \<open>merging\<close> and the merge is requested.
  Once \<open>processFile\<close> has left this \<open>await\<close>, the workers' promises have no listener.
\<close>

definition thrown :: "worker list \<Rightarrow> js_error list" where
  "thrown ws = concat (map (\<lambda>x. case x of WThrown e \<Rightarrow> [e] | _ \<Rightarrow> []) ws)"

definition promise_all :: "task \<Rightarrow> task" where
  "promise_all t =
     (if pc t \<noteq> AwaitChunks then t
      else (case thrown (workers t) of
              e # es \<Rightarrow> catch_clause e t
            | [] \<Rightarrow>
                if list_all (\<lambda>x. x = WDone) (workers t)
                then (if aborted t then catch_clause AbortError t
                      else call_mergeFile (updateFileStatus (set_status Merging t)))
                else t))"

text \<open>
  \<open>uploadChunksWithConcurrency(fileItem, chunksToUpload, signal)\<close>: the cursor starts at
  \<open>0\<close>, \<open>Array.from({length: concurrentChunks}, ...)\<close> starts the workers one after the
  other, each running to its first \<open>await\<close>, and then \<open>Promise.all\<close> is awaited.
\<close>

definition uploadChunksWithConcurrency :: "config \<Rightarrow> nat list \<Rightarrow> task \<Rightarrow> task" where
  "uploadChunksWithConcurrency cfg cs t =
     promise_all
       (fold (worker_loop cfg) [0..<concurrentChunks cfg]
          (t\<lparr>chunksToUpload := cs, index := 0,
             workers := replicate (concurrentChunks cfg) WDone, pc := AwaitChunks\<rparr>))"

text \<open>
  \<open>processFile\<close> from its start to the first \<open>await\<close>: the controller is registered, the
  status becomes \<open>checking\<close>, and the fingerprint is being computed.
\<close>

definition processFile :: "task \<Rightarrow> task" where
  "processFile t =
     (updateFileStatus (set_status Checking (t\<lparr>registered := True, aborted := False\<rparr>)))
     \<lparr>pc := AwaitMD5\<rparr>"

text \<open>What the environment delivers to a suspended call.\<close>

datatype event =
    MD5Settled "js_error + string"
  | CheckSettled "CheckFileResponse fetch_outcome"
  | ChunkSettled nat "unit fetch_outcome"
  | TimerFired nat
  | MergeSettled "MergeFileResponse fetch_outcome"

text \<open>
  A \<open>fetch\<close> given an aborted signal rejects with \<open>AbortError\<close>, and only such a \<open>fetch\<close>
  does.
\<close>

definition abort_consistent :: "task \<Rightarrow> 'a fetch_outcome \<Rightarrow> bool" where
  "abort_consistent t out = (aborted t = (out = Rejected AbortError))"

definition after_md5 :: "js_error + string \<Rightarrow> task \<Rightarrow> task" where
  "after_md5 res t =
     (case res of
        Inl e \<Rightarrow> catch_clause e t
      | Inr d \<Rightarrow>
          (let t1 = t\<lparr>item := (item t)\<lparr>md5 := Some d\<rparr>\<rparr>
           in (emit (FetchCheck (md5 (item t1)) (file_name (file_f (item t1)))) t1)
              \<lparr>pc := AwaitCheck\<rparr>))"

text \<open>
  \<open>processFile\<close> after the check. (\<open>fileItem.uploadedChunks\<close> becomes the very array of the
  response, so later pushes also change \<open>checkResult.uploadedChunks\<close>; the response is not
  read again, and \<open>checkResult\<close> keeps it here as it was received.)
\<close>

definition after_check :: "config \<Rightarrow> CheckFileResponse fetch_outcome \<Rightarrow> task \<Rightarrow> task" where
  "after_check cfg out t =
     (case http_json out of
        Inl e \<Rightarrow> catch_clause e t
      | Inr r \<Rightarrow>
          (let t0 = t\<lparr>checkResult := Some r\<rparr> in
           if exists_r r then succeed t0
           else
             (let cs = filter (\<lambda>i. i \<notin> set (uploadedChunks_r r)) [0..<totalChunks (item t0)];
                  t1 = t0\<lparr>item := (item t0)\<lparr>uploadedChunks := uploadedChunks_r r\<rparr>\<rparr>
              in if length cs = 0 then call_mergeFile t1
                 else uploadChunksWithConcurrency cfg cs
                        (updateFileStatus (set_status Uploading t1)))))"

definition after_merge :: "MergeFileResponse fetch_outcome \<Rightarrow> task \<Rightarrow> task" where
  "after_merge out t =
     (case http_json out of
        Inl e \<Rightarrow> catch_clause e t
      | Inr r \<Rightarrow> succeed t)"

text \<open>
  The retry loop of worker \<open>w\<close> after the \<open>fetch\<close> of attempt \<open>i\<close> settled, with the
  continuation of \<open>uploadChunk\<close> and of the worker's loop.
\<close>

definition after_chunk :: "config \<Rightarrow> nat \<Rightarrow> unit fetch_outcome \<Rightarrow> task \<Rightarrow> task option" where
  "after_chunk cfg w out t =
     (if w < length (workers t) then
        (case workers t ! w of
           WFetch chunkIndex i \<Rightarrow>
             Some (promise_all
               (case attempt out of
                  Inr r \<Rightarrow> chunk_uploaded cfg w chunkIndex t
                | Inl e \<Rightarrow>
                    if e = AbortError then set_worker w (WThrown e) t
                    else if i < maxRetries cfg
                    then set_worker w (WSleep chunkIndex i e)
                           (emit (SetTimeout (backoff_delay i)) t)
                    else retry_head cfg w chunkIndex (Suc i) e t))
         | _ \<Rightarrow> None)
      else None)"

definition after_sleep :: "config \<Rightarrow> nat \<Rightarrow> task \<Rightarrow> task option" where
  "after_sleep cfg w t =
     (if w < length (workers t) then
        (case workers t ! w of
           WSleep chunkIndex i e \<Rightarrow> Some (promise_all (retry_head cfg w chunkIndex (Suc i) e t))
         | _ \<Rightarrow> None)
      else None)"

text \<open>One event delivered to the call; \<open>None\<close> when nothing awaits it.\<close>

definition task_event :: "config \<Rightarrow> event \<Rightarrow> task \<Rightarrow> task option" where
  "task_event cfg ev t =
     (case ev of
        MD5Settled res \<Rightarrow> if pc t = AwaitMD5 then Some (after_md5 res t) else None
      | CheckSettled out \<Rightarrow>
          if pc t = AwaitCheck \<and> abort_consistent t out then Some (after_check cfg out t)
          else None
      | ChunkSettled w out \<Rightarrow>
          if abort_consistent t out then after_chunk cfg w out t else None
      | TimerFired w \<Rightarrow> after_sleep cfg w t
      | MergeSettled out \<Rightarrow>
          if pc t = AwaitMerge \<and> abort_consistent t out then Some (after_merge out t)
          else None)"

text \<open>
  What \<open>cancelUpload\<close> does to the item it found: a pending item is marked cancelled; for
  an item in \<open>checking\<close>, \<open>uploading\<close> or \<open>merging\<close> the registered controller, if any, is
  aborted and unregistered, and the item is marked cancelled; otherwise nothing.
\<close>

definition cancel_item :: "task \<Rightarrow> task" where
  "cancel_item t =
     (if status (item t) = Pending then updateFileStatus (set_status Cancelled t)
      else if status (item t) = Checking \<or> status (item t) = Uploading
                \<or> status (item t) = Merging
      then updateFileStatus (set_status Cancelled
             (if registered t then t\<lparr>aborted := True, registered := False\<rparr> else t))
      else t)"

text \<open>What \<open>destroy\<close> does to a call: a registered controller is aborted and unregistered.\<close>

definition destroy_item :: "task \<Rightarrow> task" where
  "destroy_item t = (if registered t then t\<lparr>aborted := True, registered := False\<rparr> else t)"

text \<open>
  Everything that can happen to one item. The queue only holds pending items that have
  not been dispatched (\<open>cancelUpload\<close> removes a pending item from the queue).
\<close>

datatype action = Dispatch | Deliver event | CancelUpload | Destroy

definition task_step :: "config \<Rightarrow> action \<Rightarrow> task \<Rightarrow> task option" where
  "task_step cfg a t =
     (case a of
        Dispatch \<Rightarrow>
          if pc t = NotStarted \<and> status (item t) = Pending then Some (processFile t) else None
      | Deliver ev \<Rightarrow> task_event cfg ev t
      | CancelUpload \<Rightarrow> Some (cancel_item t)
      | Destroy \<Rightarrow> Some (destroy_item t))"

fun task_run :: "config \<Rightarrow> action list \<Rightarrow> task \<Rightarrow> task option" where
  "task_run cfg [] t = Some t"
| "task_run cfg (a # as) t =
     (case task_step cfg a t of None \<Rightarrow> None | Some t' \<Rightarrow> task_run cfg as t')"

text \<open>The states of an item that some run reaches from its creation.\<close>

definition task_reachable :: "config \<Rightarrow> task \<Rightarrow> bool" where
  "task_reachable cfg t = (\<exists>i f as. task_run cfg as (new_task cfg i f) = Some t)"

section \<open>Upload orchestrator\<close>

text \<open>
  The uploader object. \<open>heap\<close> holds every item created so far with the state of its
  \<open>processFile\<close> call, at the position that is its identifier; \<open>files\<close> and \<open>uploadQueue\<close>
  refer to items by that position. The map \<open>abortControllers\<close> is kept as the flags
  \<open>registered\<close> of the calls: its keys are the identifiers whose flag is set.
\<close>

record uploader =
  conf :: config
  heap :: "task list"
  files :: "nat list"
  uploadQueue :: "nat list"
  uploadingCount :: int

text \<open>The constructor; it throws when an endpoint is missing (the message in its English part).\<close>

definition FileUploader :: "FileUploaderOptions \<Rightarrow> js_error + uploader" where
  "FileUploader opts =
     (if falsy (opt_checkEndpoint opts) \<or> falsy (opt_chunkEndpoint opts)
         \<or> falsy (opt_mergeEndpoint opts)
      then Inl (Err ''All API endpoints (checkEndpoint, chunkEndpoint, mergeEndpoint) must be provided'')
      else Inr \<lparr>conf = make_config opts, heap = [], files = [], uploadQueue = [],
                uploadingCount = 0\<rparr>)"

text \<open>
  \<open>processQueue\<close>: while the queue is not empty and fewer than \<open>concurrentFiles\<close> calls
  are counted, the head is taken, the count is incremented and \<open>processFile\<close> is started.
\<close>

function processQueue :: "uploader \<Rightarrow> uploader" where
  "processQueue u =
     (if uploadQueue u \<noteq> [] \<and> uploadingCount u < int (concurrentFiles (conf u))
      then processQueue
             (u\<lparr>uploadQueue := tl (uploadQueue u),
                uploadingCount := uploadingCount u + 1,
                heap := (heap u)[hd (uploadQueue u) := processFile (heap u ! hd (uploadQueue u))]\<rparr>)
      else u)"
  by pat_completeness auto
termination
  by (relation "measure (\<lambda>u. length (uploadQueue u))") auto

declare processQueue.simps [simp del]

definition addFiles :: "File list \<Rightarrow> uploader \<Rightarrow> uploader" where
  "addFiles fileList u =
     (let ids = [length (heap u)..<length (heap u) + length fileList];
          newFiles = map (\<lambda>(i, f). new_task (conf u) i f) (zip ids fileList)
      in processQueue
           (u\<lparr>heap := heap u @ newFiles, files := files u @ ids,
              uploadQueue := uploadQueue u @ ids\<rparr>))"

definition cancelUpload :: "nat \<Rightarrow> uploader \<Rightarrow> uploader" where
  "cancelUpload fileId u =
     (if fileId \<notin> set (files u) then u
      else if status (item (heap u ! fileId)) = Pending
      then u\<lparr>uploadQueue := filter (\<lambda>r. r \<noteq> fileId) (uploadQueue u),
             heap := (heap u)[fileId := cancel_item (heap u ! fileId)]\<rparr>
      else u\<lparr>heap := (heap u)[fileId := cancel_item (heap u ! fileId)]\<rparr>)"

definition destroy :: "uploader \<Rightarrow> uploader" where
  "destroy u = u\<lparr>heap := map destroy_item (heap u), uploadQueue := [], files := []\<rparr>"

text \<open>
  An event delivered to the call of item \<open>r\<close>. When the call settles, its \<open>finally\<close>
  handler decrements the count and runs \<open>processQueue\<close>.
\<close>

definition deliver :: "nat \<Rightarrow> event \<Rightarrow> uploader \<Rightarrow> uploader option" where
  "deliver r ev u =
     (if r < length (heap u) then
        (case task_event (conf u) ev (heap u ! r) of
           None \<Rightarrow> None
         | Some t' \<Rightarrow>
             Some (if pc (heap u ! r) \<noteq> Settled \<and> pc t' = Settled
                   then processQueue
                          (u\<lparr>heap := (heap u)[r := t'],
                             uploadingCount := uploadingCount u - 1\<rparr>)
                   else u\<lparr>heap := (heap u)[r := t']\<rparr>))
      else None)"

datatype op = Call_addFiles "File list" | Call_cancelUpload nat | Call_destroy | Env nat event

definition step :: "op \<Rightarrow> uploader \<Rightarrow> uploader option" where
  "step x u =
     (case x of
        Call_addFiles fileList \<Rightarrow> Some (addFiles fileList u)
      | Call_cancelUpload fileId \<Rightarrow> Some (cancelUpload fileId u)
      | Call_destroy \<Rightarrow> Some (destroy u)
      | Env r ev \<Rightarrow> deliver r ev u)"

fun run :: "op list \<Rightarrow> uploader \<Rightarrow> uploader option" where
  "run [] u = Some u"
| "run (x # xs) u = (case step x u of None \<Rightarrow> None | Some u' \<Rightarrow> run xs u')"

text \<open>
  A call is in flight from its dispatch until it settles; a chunk upload is active while
  its worker awaits a \<open>fetch\<close>.
\<close>

definition in_flight :: "task \<Rightarrow> bool" where
  "in_flight t = (pc t \<noteq> NotStarted \<and> pc t \<noteq> Settled)"

definition active_uploads :: "task \<Rightarrow> nat" where
  "active_uploads t = length (filter (\<lambda>x. case x of WFetch c i \<Rightarrow> True | _ \<Rightarrow> False) (workers t))"

section \<open>Invariants\<close>

text \<open>
  The predicates below are the invariants used in the proofs: of one \<open>processFile\<close> call
  (\<open>task_inv\<close>, \<open>call_inv\<close>), of a call whose check reported the file as existing
  (\<open>instant_inv\<close>), of the worker pool (\<open>pool_inv\<close>, \<open>upload_inv\<close>) and of the uploader
  (\<open>uploader_inv\<close>); and the relations between the states before and after a piece of
  code (\<open>frame\<close>, \<open>same_file\<close>, \<open>worker_code\<close>).
\<close>

definition all_done :: "worker list \<Rightarrow> bool" where
  "all_done ws = list_all (\<lambda>x. x = WDone) ws"

definition terminal :: "status \<Rightarrow> bool" where
  "terminal s = (s = Success \<or> s = Error \<or> s = Cancelled)"

text \<open>
  A call that has been dispatched and has not settled: its status is not yet final unless
  the item was cancelled, its controller is registered unless the signal is aborted, and
  a cancelled item has an aborted signal.
\<close>

definition live :: "task \<Rightarrow> bool" where
  "live t =
    ((\<not> terminal (status (item t)) \<or> status (item t) = Cancelled)
     \<and> status (item t) \<noteq> Pending
     \<and> (\<not> aborted t \<longrightarrow> registered t)
     \<and> (status (item t) = Cancelled \<longrightarrow> aborted t))"

definition task_inv :: "config \<Rightarrow> task \<Rightarrow> bool" where
  "task_inv cfg t =
    (length (workers t) \<le> concurrentChunks cfg
   \<and> (case pc t of
        NotStarted \<Rightarrow> workers t = []
          \<and> (status (item t) = Pending \<or> status (item t) = Cancelled)
          \<and> \<not> registered t \<and> \<not> aborted t \<and> checkResult t = None
      | AwaitMD5 \<Rightarrow> workers t = [] \<and> checkResult t = None \<and> live t
      | AwaitCheck \<Rightarrow> workers t = [] \<and> checkResult t = None \<and> live t
      | AwaitChunks \<Rightarrow> live t
      | AwaitMerge \<Rightarrow> all_done (workers t) \<and> live t
      | Settled \<Rightarrow> terminal (status (item t))
          \<and> (status (item t) = Success \<longrightarrow> all_done (workers t))))"

text \<open>What the code of a worker leaves unchanged.\<close>

definition frame :: "task \<Rightarrow> task \<Rightarrow> bool" where
  "frame t t' =
    (pc t' = pc t \<and> aborted t' = aborted t \<and> registered t' = registered t
   \<and> checkResult t' = checkResult t \<and> chunksToUpload t' = chunksToUpload t
   \<and> length (workers t') = length (workers t)
   \<and> status (item t') = status (item t) \<and> totalChunks (item t') = totalChunks (item t)
   \<and> error (item t') = error (item t) \<and> md5 (item t') = md5 (item t)
   \<and> file_f (item t') = file_f (item t) \<and> id_f (item t') = id_f (item t))"

definition no_upload_or_merge :: "effect list \<Rightarrow> bool" where
  "no_upload_or_merge es =
     list_all (\<lambda>e. case e of FetchChunk fd \<Rightarrow> False | FetchMerge d n k \<Rightarrow> False | _ \<Rightarrow> True) es"

definition instant_inv :: "task \<Rightarrow> bool" where
  "instant_inv t =
     (case checkResult t of
        None \<Rightarrow> workers t = [] \<and> no_upload_or_merge (effects t)
      | Some r \<Rightarrow> exists_r r \<longrightarrow>
          status (item t) = Success \<and> progress (item t) = 100 \<and> pc t = Settled
          \<and> workers t = [] \<and> no_upload_or_merge (effects t))"

text \<open>The chunk a worker holds, and the chunks held by the pool.\<close>

definition claimed :: "worker \<Rightarrow> nat list" where
  "claimed x = (case x of WFetch c i \<Rightarrow> [c] | WSleep c i e \<Rightarrow> [c] | _ \<Rightarrow> [])"

definition in_progress :: "worker list \<Rightarrow> nat list" where
  "in_progress ws = concat (map claimed ws)"

text \<open>
  The pool while \<open>Promise.all\<close> is awaited, \<open>us\<close> being the chunks the check reported and
  \<open>k\<close> the number of workers started: no worker has rejected, the chunks recorded and the
  chunks held are the reported ones and the ones claimed so far, and a started worker has
  finished only if the cursor is at the end or the signal is aborted.
\<close>

definition pool_inv :: "nat \<Rightarrow> nat list \<Rightarrow> task \<Rightarrow> bool" where
  "pool_inv k us t =
    (index t \<le> length (chunksToUpload t) \<and> thrown (workers t) = []
   \<and> mset (uploadedChunks (item t)) + mset (in_progress (workers t))
        = mset us + mset (take (index t) (chunksToUpload t))
   \<and> (\<forall>j<k. j < length (workers t) \<longrightarrow> workers t ! j = WDone
         \<longrightarrow> index t = length (chunksToUpload t) \<or> aborted t))"

definition upload_inv :: "task \<Rightarrow> bool" where
  "upload_inv t =
     (case checkResult t of
        None \<Rightarrow> True
      | Some r \<Rightarrow>
          (pc t = AwaitChunks \<longrightarrow> workers t \<noteq> []
             \<and> pool_inv (length (workers t)) (uploadedChunks_r r) t
             \<and> chunksToUpload t
                 = filter (\<lambda>i. i \<notin> set (uploadedChunks_r r)) [0..<totalChunks (item t)])
        \<and> (pc t = AwaitMerge \<longrightarrow>
              mset (uploadedChunks (item t))
                = mset (uploadedChunks_r r)
                  + mset (filter (\<lambda>i. i \<notin> set (uploadedChunks_r r))
                            [0..<totalChunks (item t)])))"

definition uploader_inv :: "uploader \<Rightarrow> bool" where
  "uploader_inv u =
    (uploadingCount u = int (length (filter in_flight (heap u)))
   \<and> uploadingCount u \<le> int (concurrentFiles (conf u))
   \<and> distinct (uploadQueue u)
   \<and> (\<forall>r \<in> set (uploadQueue u). r < length (heap u) \<and> pc (heap u ! r) = NotStarted
         \<and> status (item (heap u ! r)) = Pending)
   \<and> (\<forall>r \<in> set (files u). r < length (heap u))
   \<and> (\<forall>t \<in> set (heap u). task_reachable (conf u) t))"

text \<open>
  A worker that sleeps will try again, for an error that is not an abort; and a worker
  has rejected with \<open>AbortError\<close> only on an aborted signal.
\<close>

definition worker_ok :: "config \<Rightarrow> bool \<Rightarrow> worker \<Rightarrow> bool" where
  "worker_ok cfg ab x =
     (case x of
        WSleep c i e \<Rightarrow> i < maxRetries cfg \<and> e \<noteq> AbortError
      | WThrown e \<Rightarrow> e = AbortError \<longrightarrow> ab
      | _ \<Rightarrow> True)"

definition workers_ok :: "config \<Rightarrow> task \<Rightarrow> bool" where
  "workers_ok cfg t = list_all (worker_ok cfg (aborted t)) (workers t)"

text \<open>
  More of one call: the status \<open>merging\<close> is held only while the merge is awaited, a
  cancelled item with workers has an aborted signal, a file with workers has chunks, and
  while \<open>Promise.all\<close> is awaited no worker has rejected.
\<close>

definition call_core :: "config \<Rightarrow> task \<Rightarrow> bool" where
  "call_core cfg t =
    ((status (item t) = Merging \<longrightarrow> pc t = AwaitMerge)
   \<and> (status (item t) = Cancelled \<longrightarrow> aborted t \<or> workers t = [])
   \<and> workers_ok cfg t
   \<and> (workers t = [] \<or> 0 < totalChunks (item t)))"

definition call_inv :: "config \<Rightarrow> task \<Rightarrow> bool" where
  "call_inv cfg t = (call_core cfg t \<and> (pc t = AwaitChunks \<longrightarrow> thrown (workers t) = []))"

text \<open>The fields of an item that are written once, when \<open>addFiles\<close> creates it.\<close>

definition same_file :: "task \<Rightarrow> task \<Rightarrow> bool" where
  "same_file t t' =
    (id_f (item t') = id_f (item t) \<and> file_f (item t') = file_f (item t)
   \<and> name (item t') = name (item t) \<and> size_f (item t') = size_f (item t)
   \<and> totalChunks (item t') = totalChunks (item t))"

text \<open>The merge requests among the effects.\<close>

definition merge_requests :: "effect list \<Rightarrow> effect list" where
  "merge_requests es = filter (\<lambda>e. case e of FetchMerge d n k \<Rightarrow> True | _ \<Rightarrow> False) es"

text \<open>
  What the code of a worker leaves unchanged besides: the file, the chunks recorded before
  (it only appends to \<open>uploadedChunks\<close>) and the merge requests sent.
\<close>

definition worker_code :: "task \<Rightarrow> task \<Rightarrow> bool" where
  "worker_code t t' =
    (frame t t' \<and> same_file t t'
   \<and> take (length (uploadedChunks (item t))) (uploadedChunks (item t')) = uploadedChunks (item t)
   \<and> merge_requests (effects t') = merge_requests (effects t))"

section \<open>Scenarios\<close>

text \<open>
  Concrete inputs: an uploader with chunks of 2 bytes, two files and two chunks at a time
  and one retry; a file of 5 bytes (3 chunks); and the runs used below.
\<close>

definition demo_opts :: FileUploaderOptions where
  "demo_opts = \<lparr>opt_checkEndpoint = Some ''/api/upload/check'',
     opt_chunkEndpoint = Some ''/api/upload/chunk'', opt_mergeEndpoint = Some ''/api/upload/merge'',
     opt_chunkSize = Some 2, opt_concurrentFiles = Some 2, opt_concurrentChunks = Some 2,
     opt_maxRetries = Some 1\<rparr>"

definition demo_cfg :: config where
  "demo_cfg = \<lparr>chunkSize = 2, concurrentFiles = 2, concurrentChunks = 2, maxRetries = 1\<rparr>"

definition demo_uploader :: uploader where
  "demo_uploader = \<lparr>conf = demo_cfg, heap = [], files = [], uploadQueue = [], uploadingCount = 0\<rparr>"

definition demo_file :: File where
  "demo_file = \<lparr>file_name = ''a.bin'', file_bytes = [1, 2, 3, 4, 5]\<rparr>"

definition check_exists :: CheckFileResponse where
  "check_exists = \<lparr>exists_r = True, path_r = Some ''/uploads/a.bin'', uploadedChunks_r = []\<rparr>"

definition check_resume :: "nat list \<Rightarrow> CheckFileResponse" where
  "check_resume us = \<lparr>exists_r = False, path_r = None, uploadedChunks_r = us\<rparr>"

definition checked :: "CheckFileResponse \<Rightarrow> task" where
  "checked r = after_check demo_cfg (Response 200 r)
     (after_md5 (Inr ''d41d'') (processFile (new_task demo_cfg 0 demo_file)))"

definition start_trace :: "CheckFileResponse \<Rightarrow> action list" where
  "start_trace r = [Dispatch, Deliver (MD5Settled (Inr ''d41d'')),
     Deliver (CheckSettled (Response 200 r))]"

definition run_or_new :: "action list \<Rightarrow> task" where
  "run_or_new acts =
     (case task_run demo_cfg acts (new_task demo_cfg 0 demo_file) of
        Some t \<Rightarrow> t | None \<Rightarrow> new_task demo_cfg 0 demo_file)"

definition resume_trace :: "action list" where
  "resume_trace = start_trace (check_resume [0, 1]) @ [Deliver (ChunkSettled 0 (Response 200 ()))]"

definition failing_trace :: "action list" where
  "failing_trace = start_trace (check_resume []) @
     [Deliver (ChunkSettled 0 (Response 500 ())), Deliver (TimerFired 0),
      Deliver (ChunkSettled 0 (Response 500 ()))]"

definition cancelled_checking :: task where
  "cancelled_checking = cancel_item (processFile (new_task demo_cfg 0 demo_file))"

definition zero_file :: File where
  "zero_file = \<lparr>file_name = ''empty.txt'', file_bytes = []\<rparr>"

text \<open>The requests sent, and the items shown to the observer, among the effects.\<close>

definition requests :: "effect list \<Rightarrow> effect list" where
  "requests es = filter (\<lambda>e. case e of Notify x \<Rightarrow> False | SetTimeout d \<Rightarrow> False | _ \<Rightarrow> True) es"

definition notifications :: "effect list \<Rightarrow> FileItem list" where
  "notifications es = concat (map (\<lambda>e. case e of Notify x \<Rightarrow> [x] | _ \<Rightarrow> []) es)"

definition demo_item ::
  "status \<Rightarrow> nat \<Rightarrow> nat list \<Rightarrow> string option \<Rightarrow> string option \<Rightarrow> FileItem" where
  "demo_item s p us d e =
     \<lparr>id_f = 0, file_f = demo_file, status = s, progress = p, name = ''a.bin'', size_f = 5,
      uploadedChunks = us, totalChunks = 3, md5 = d, error = e\<rparr>"

definition demo_chunk :: "nat \<Rightarrow> byte list \<Rightarrow> effect" where
  "demo_chunk k bs =
     FetchChunk \<lparr>fd_file = bs, fd_md5 = Some ''d41d'', fd_chunkIndex = k, fd_totalChunks = 3\<rparr>"

definition failed_state :: task where
  "failed_state =
     \<lparr>item = demo_item Error 0 [] (Some ''d41d'') (Some ''HTTP error! status: 500''),
      pc = Settled, registered = False, aborted = False,
      checkResult = Some (check_resume []), chunksToUpload = [0, 1, 2], index = 2,
      workers = [WThrown (Err ''HTTP error! status: 500''), WFetch 1 0],
      effects =
        [Notify (demo_item Checking 0 [] None None),
         FetchCheck (Some ''d41d'') ''a.bin'',
         Notify (demo_item Uploading 0 [] (Some ''d41d'') None),
         demo_chunk 0 [1, 2], demo_chunk 1 [3, 4], SetTimeout 1000, demo_chunk 0 [1, 2],
         Notify (demo_item Error 0 [] (Some ''d41d'') (Some ''HTTP error! status: 500''))]\<rparr>"

definition orphan_state :: task where
  "orphan_state =
     failed_state
       \<lparr>item := demo_item Error 33 [1] (Some ''d41d'') (Some ''HTTP error! status: 500''),
        index := 3,
        workers := [WThrown (Err ''HTTP error! status: 500''), WFetch 2 0],
        effects := effects failed_state @
          [Notify (demo_item Error 33 [1] (Some ''d41d'') (Some ''HTTP error! status: 500'')),
           demo_chunk 2 [5]]\<rparr>"

text \<open>
  The state after \<open>resume_trace\<close>, in which the merge has been requested; a merge response
  with status 400, as the reference server gives for a missing chunk (its body has no
  field the uploader reads); and the state after that response.
\<close>

definition merging_state :: task where
  "merging_state =
     \<lparr>item = demo_item Merging 100 [0, 1, 2] (Some ''d41d'') None,
      pc = AwaitMerge, registered = True, aborted = False,
      checkResult = Some (check_resume [0, 1]), chunksToUpload = [2], index = 1,
      workers = [WDone, WDone],
      effects =
        [Notify (demo_item Checking 0 [] None None),
         FetchCheck (Some ''d41d'') ''a.bin'',
         Notify (demo_item Uploading 0 [0, 1] (Some ''d41d'') None),
         demo_chunk 2 [5],
         Notify (demo_item Uploading 100 [0, 1, 2] (Some ''d41d'') None),
         Notify (demo_item Merging 100 [0, 1, 2] (Some ''d41d'') None),
         FetchMerge (Some ''d41d'') ''a.bin'' 3]\<rparr>"

definition missing_chunk :: "MergeFileResponse fetch_outcome" where
  "missing_chunk = Response 400 \<lparr>success = False, path_m = None\<rparr>"

definition rejected_state :: task where
  "rejected_state =
     merging_state
       \<lparr>item := demo_item Error 100 [0, 1, 2] (Some ''d41d'') (Some ''HTTP error! status: 400''),
        pc := Settled, registered := False,
        effects := effects merging_state @
          [Notify (demo_item Error 100 [0, 1, 2] (Some ''d41d'')
             (Some ''HTTP error! status: 400''))]\<rparr>"

text \<open>
  The file of zero bytes: its item, its run up to the answer to the merge request, the
  answers 500 and 200 to that request, and the state after the answer 500.
\<close>

definition zero_item :: "status \<Rightarrow> nat \<Rightarrow> string option \<Rightarrow> string option \<Rightarrow> FileItem" where
  "zero_item s p d e =
     \<lparr>id_f = 0, file_f = zero_file, status = s, progress = p, name = ''empty.txt'', size_f = 0,
      uploadedChunks = [], totalChunks = 0, md5 = d, error = e\<rparr>"

definition zero_trace :: "MergeFileResponse fetch_outcome \<Rightarrow> action list" where
  "zero_trace out =
     [Dispatch, Deliver (MD5Settled (Inr ''d41d'')),
      Deliver (CheckSettled (Response 200 (check_resume []))),
      Deliver (MergeSettled out)]"

definition server_error :: "MergeFileResponse fetch_outcome" where
  "server_error = Response 500 \<lparr>success = False, path_m = None\<rparr>"

definition merged :: "MergeFileResponse fetch_outcome" where
  "merged = Response 200 \<lparr>success = True, path_m = Some ''/uploads/d41d_empty.txt''\<rparr>"

definition zero_rejected :: task where
  "zero_rejected =
     \<lparr>item = zero_item Error 0 (Some ''d41d'') (Some ''HTTP error! status: 500''),
      pc = Settled, registered = False, aborted = False,
      checkResult = Some (check_resume []), chunksToUpload = [], index = 0, workers = [],
      effects =
        [Notify (zero_item Checking 0 None None),
         FetchCheck (Some ''d41d'') ''empty.txt'',
         FetchMerge (Some ''d41d'') ''empty.txt'' 0,
         Notify (zero_item Error 0 (Some ''d41d'') (Some ''HTTP error! status: 500''))]\<rparr>"

section \<open>Properties of the retry executor\<close>

lemma retry_loop_returns:
  "\<not> sig i \<Longrightarrow> i \<le> m \<Longrightarrow> attempt (fn i) = Inr r
     \<Longrightarrow> retry_loop fn sig m i lastError tr = (Inr r, tr @ [Attempt i])"
  by (subst retry_loop.simps) simp

lemma retry_loop_exhausted:
  "\<not> sig m \<Longrightarrow> attempt (fn m) = Inl e \<Longrightarrow> e \<noteq> AbortError
     \<Longrightarrow> retry_loop fn sig m m lastError tr
         = (Inl (Some e), tr @ [Attempt m])"
  by (subst retry_loop.simps, simp, subst retry_loop.simps, simp)

lemma retry_loop_again:
  "\<not> sig i \<Longrightarrow> i < m \<Longrightarrow> attempt (fn i) = Inl e \<Longrightarrow> e \<noteq> AbortError
     \<Longrightarrow> retry_loop fn sig m i lastError tr
         = retry_loop fn sig m (Suc i) (Some e)
             (tr @ [Attempt i, Sleep (backoff_delay i)])"
  by (subst retry_loop.simps) simp

lemma attempt_not_abort:
  "out \<noteq> Rejected AbortError \<Longrightarrow> attempt out \<noteq> Inl AbortError"
  by (cases out) (auto simp: attempt_def http_error_def)

lemma retry_loop_shape:
  assumes "\<forall>j. \<not> sig j" and "\<forall>j. fn j \<noteq> Rejected AbortError" and "i \<le> m"
  shows "\<exists>k. i \<le> k \<and> k \<le> m
      \<and> snd (retry_loop fn sig m i lastError tr)
          = tr @ failed_rounds i k @ [Attempt k]
      \<and> (\<forall>j. i \<le> j \<and> j < k \<longrightarrow> isl (attempt (fn j)))
      \<and> (case attempt (fn k) of
            Inr r \<Rightarrow> fst (retry_loop fn sig m i lastError tr) = Inr r
          | Inl e \<Rightarrow> k = m
              \<and> fst (retry_loop fn sig m i lastError tr) = Inl (Some e))"
  using assms
proof (induction "m - i" arbitrary: i lastError tr)
  case 0
  then have im: "i = m" by simp
  have nab: "\<not> sig m" using "0.prems"(1) by blast
  have na: "attempt (fn m) \<noteq> Inl AbortError"
    using "0.prems"(2) attempt_not_abort by blast
  show ?case
  proof (cases "attempt (fn m)")
    case (Inl e)
    with na have ne: "e \<noteq> AbortError" by auto
    have "retry_loop fn sig m m lastError tr
        = (Inl (Some e), tr @ [Attempt m])"
      using nab Inl ne by (rule retry_loop_exhausted)
    with Inl im show ?thesis
      by (intro exI [of _ m]) (auto simp: failed_rounds_def)
  next
    case (Inr r)
    have "retry_loop fn sig m m lastError tr
        = (Inr r, tr @ [Attempt m])"
      using nab order_refl Inr by (rule retry_loop_returns)
    with Inr im show ?thesis
      by (intro exI [of _ m]) (auto simp: failed_rounds_def)
  qed
next
  case (Suc n)
  then have lt: "i < m" and n: "n = m - Suc i" by simp_all
  have nab: "\<not> sig i" using Suc.prems(1) by blast
  have na: "attempt (fn i) \<noteq> Inl AbortError"
    using Suc.prems(2) attempt_not_abort by blast
  show ?case
  proof (cases "attempt (fn i)")
    case (Inr r)
    have "retry_loop fn sig m i lastError tr = (Inr r, tr @ [Attempt i])"
      using nab Suc.prems(3) Inr by (rule retry_loop_returns)
    with Inr lt show ?thesis
      by (intro exI [of _ i]) (auto simp: failed_rounds_def)
  next
    case (Inl e)
    with na have ne: "e \<noteq> AbortError" by auto
    let ?tr = "tr @ [Attempt i, Sleep (backoff_delay i)]"
    have step: "retry_loop fn sig m i lastError tr
        = retry_loop fn sig m (Suc i) (Some e) ?tr"
      using nab lt Inl ne by (rule retry_loop_again)
    from lt have "Suc i \<le> m" by simp
    from Suc.hyps(1) [OF n Suc.prems(1) Suc.prems(2) this, of "Some e" ?tr]
    obtain k where k: "Suc i \<le> k" "k \<le> m"
      "snd (retry_loop fn sig m (Suc i) (Some e) ?tr)
         = ?tr @ failed_rounds (Suc i) k @ [Attempt k]"
      "\<forall>j. Suc i \<le> j \<and> j < k \<longrightarrow> isl (attempt (fn j))"
      "case attempt (fn k) of
         Inr r \<Rightarrow> fst (retry_loop fn sig m (Suc i) (Some e) ?tr) = Inr r
       | Inl e' \<Rightarrow> k = m
           \<and> fst (retry_loop fn sig m (Suc i) (Some e) ?tr) = Inl (Some e')"
      by blast
    have fr: "failed_rounds i k = [Attempt i, Sleep (backoff_delay i)] @ failed_rounds (Suc i) k"
      using k(1) by (simp add: failed_rounds_def upt_conv_Cons)
    have all: "\<forall>j. i \<le> j \<and> j < k \<longrightarrow> isl (attempt (fn j))"
    proof (intro allI impI)
      fix j assume "i \<le> j \<and> j < k"
      then show "isl (attempt (fn j))"
        using k(4) Inl by (cases "j = i") auto
    qed
    have le: "i \<le> k" using k(1) by simp
    show ?thesis
      unfolding step using le k(2,3,5) all by (intro exI [of _ k]) (simp add: fr)
  qed
qed

lemma attempts_failed_rounds: "attempts (failed_rounds i k) = [i..<k]"
  unfolding attempts_def failed_rounds_def
  by (induction k) simp_all

lemma sleeps_failed_rounds: "sleeps (failed_rounds i k) = map backoff_delay [i..<k]"
  unfolding sleeps_def failed_rounds_def
  by (induction k) simp_all

text \<open>
  Claim C5. Absent cancellation (the signal is never sig and no call rejects with
  \<open>AbortError\<close>), \<open>uploadWithRetry\<close> calls the operation \<open>k + 1\<close> times for some
  \<open>k \<le> maxRetries\<close>, so at most \<open>maxRetries + 1\<close> times; attempts \<open>0\<close> to \<open>k - 1\<close> failed
  and each is followed by a sleep of \<open>min (1000 * 2 ^ i) 10000\<close> milliseconds, with no sleep
  after the last attempt; and when the last attempt fails too, all \<open>maxRetries + 1\<close>
  attempts were made and the error thrown is the one of that last attempt.
\<close>

theorem uploadWithRetry_attempts_backoff_last_error:
  assumes "\<forall>j. \<not> sig j" and "\<forall>j. fn j \<noteq> Rejected AbortError"
  shows "\<exists>k. k \<le> m
      \<and> attempts (snd (uploadWithRetry fn sig m)) = [0..<Suc k]
      \<and> length (attempts (snd (uploadWithRetry fn sig m))) \<le> m + 1
      \<and> sleeps (snd (uploadWithRetry fn sig m))
          = map (\<lambda>i. min (1000 * 2 ^ i) 10000) [0..<k]
      \<and> snd (uploadWithRetry fn sig m)
          = concat (map (\<lambda>i. [Attempt i, Sleep (min (1000 * 2 ^ i) 10000)]) [0..<k])
              @ [Attempt k]
      \<and> (\<forall>j<k. isl (attempt (fn j)))
      \<and> (case attempt (fn k) of
            Inr r \<Rightarrow> fst (uploadWithRetry fn sig m) = Inr r
          | Inl e \<Rightarrow> k = m
              \<and> fst (uploadWithRetry fn sig m) = Inl (Some e))"
proof -
  from retry_loop_shape [OF assms, of 0 m None "[]"]
  obtain k where k: "k \<le> m"
    "snd (uploadWithRetry fn sig m) = failed_rounds 0 k @ [Attempt k]"
    "\<forall>j<k. isl (attempt (fn j))"
    "case attempt (fn k) of
       Inr r \<Rightarrow> fst (uploadWithRetry fn sig m) = Inr r
     | Inl e \<Rightarrow> k = m \<and> fst (uploadWithRetry fn sig m) = Inl (Some e)"
    unfolding uploadWithRetry_def by auto
  have a: "attempts (failed_rounds 0 k @ [Attempt k]) = [0..<Suc k]"
    using attempts_failed_rounds [of 0 k] by (simp add: attempts_def)
  have s: "sleeps (failed_rounds 0 k @ [Attempt k]) = map backoff_delay [0..<k]"
    using sleeps_failed_rounds [of 0 k] by (simp add: sleeps_def)
  have bd: "backoff_delay = (\<lambda>i. min (1000 * 2 ^ i) 10000)"
    by (rule ext) (simp add: backoff_delay_def)
  show ?thesis
    apply (rule exI [of _ k])
    unfolding k(2) a s
    using k(1,3,4) by (simp add: failed_rounds_def bd)
qed

text \<open>
  With \<open>maxRetries = 3\<close> and a server that always answers 500: four attempts, sleeps of
  1000, 2000 and 4000 ms between them, and the HTTP error of the fourth attempt is thrown.
\<close>

theorem uploadWithRetry_attempts_backoff_last_error_witness:
  "(\<forall>j. \<not> (\<lambda>i. False) j) \<and> (\<forall>j. (\<lambda>i. Response 500 ()) j \<noteq> Rejected AbortError)
   \<and> (\<exists>k. k \<le> 3
      \<and> attempts (snd (uploadWithRetry (\<lambda>i. Response 500 ()) (\<lambda>i. False) 3)) = [0..<Suc k]
      \<and> snd (uploadWithRetry (\<lambda>i. Response 500 ()) (\<lambda>i. False) 3)
          = concat (map (\<lambda>i. [Attempt i, Sleep (min (1000 * 2 ^ i) 10000)]) [0..<k])
              @ [Attempt k])
   \<and> uploadWithRetry (\<lambda>i. Response 500 ()) (\<lambda>i. False) 3
       = (Inl (Some (http_error 500)),
          [Attempt 0, Sleep 1000, Attempt 1, Sleep 2000, Attempt 2, Sleep 4000, Attempt 3])"
proof -
  have h1: "\<forall>j. \<not> (\<lambda>i::nat. False) j" by simp
  have h2: "\<forall>j. (\<lambda>i::nat. Response 500 ()) j \<noteq> Rejected AbortError" by simp
  have ev: "uploadWithRetry (\<lambda>i. Response 500 ()) (\<lambda>i. False) 3
       = (Inl (Some (http_error 500)),
          [Attempt 0, Sleep 1000, Attempt 1, Sleep 2000, Attempt 2, Sleep 4000, Attempt 3])"
    by (simp add: uploadWithRetry_def retry_loop.simps attempt_def ok_def backoff_delay_def
          http_error_def eval_nat_numeral)
  from uploadWithRetry_attempts_backoff_last_error [OF h1 h2, of 3]
  have "\<exists>k. k \<le> 3
      \<and> attempts (snd (uploadWithRetry (\<lambda>i. Response 500 ()) (\<lambda>i. False) 3)) = [0..<Suc k]
      \<and> snd (uploadWithRetry (\<lambda>i. Response 500 ()) (\<lambda>i. False) 3)
          = concat (map (\<lambda>i. [Attempt i, Sleep (min (1000 * 2 ^ i) 10000)]) [0..<k])
              @ [Attempt k]"
    by blast
  with h1 h2 ev show ?thesis by blast
qed

section \<open>Properties of the fingerprint provider\<close>

lemma ceil_div_le: "0 < d \<Longrightarrow> (ceil_div n d \<le> m) = (n \<le> m * d)"
proof -
  assume d: "0 < d"
  have "(ceil_div n d \<le> m) = (ceil_div n d < Suc m)" by auto
  also have "\<dots> = (n + d - 1 < Suc m * d)"
    unfolding ceil_div_def using d by (simp only: div_less_iff_less_mult)
  also have "\<dots> = (n \<le> m * d)" using d by auto
  finally show ?thesis .
qed

lemma concat_loadNextChunk:
  assumes "0 < cs"
  shows "ceil_div (length bs) cs \<le> c + Suc fuel
    \<Longrightarrow> concat (loadNextChunk fuel cs bs c) = drop (c * cs) bs"
proof (induction fuel arbitrary: c)
  case 0
  then have "length bs \<le> Suc c * cs"
    using assms ceil_div_le [of cs "length bs" "Suc c"] by simp
  then show ?case by (auto simp: slice_def min_def)
next
  case (Suc fuel)
  show ?case
  proof (cases "Suc c < ceil_div (length bs) cs")
    case True
    then have "\<not> length bs \<le> Suc c * cs"
      using assms ceil_div_le [of cs "length bs" "Suc c"] by auto
    then have le: "c * cs + cs \<le> length bs" by simp
    from Suc.prems have "ceil_div (length bs) cs \<le> Suc c + Suc fuel" by simp
    from Suc.IH [OF this] have ih:
      "concat (loadNextChunk fuel cs bs (Suc c)) = drop (c * cs + cs) bs"
      by (simp add: add.commute)
    have "take cs (drop (c * cs) bs) @ drop (c * cs + cs) bs
        = drop (c * cs) bs"
      by (metis add.commute append_take_drop_id drop_drop)
    with True le ih show ?thesis
      by (simp add: slice_def min_def)
  next
    case False
    then have "length bs \<le> Suc c * cs"
      using assms ceil_div_le [of cs "length bs" "Suc c"] by auto
    with False show ?thesis by (auto simp: slice_def min_def)
  qed
qed

text \<open>
  The worker path: the worker appends the slices of the file in order, which are the
  file's bytes, so the digest is SparkMD5's digest of the content.
\<close>

lemma calculateMD5_worker_path:
  "0 < cs \<Longrightarrow> calculateMD5 spark WorkerHashes now cs f = Inr (spark (file_bytes f))"
  using concat_loadNextChunk [of cs "file_bytes f" 0 "ceil_div (file_size f) cs"]
  by (simp add: calculateMD5_def file_size_def)

text \<open>
  Claim C6. The digest is to be a function of the file's bytes on both paths. On the
  fallback path (no \<open>Worker\<close>, or its creation throws) it is not: the same file (same
  name, same bytes) fingerprinted at two clock readings gets two different digests, and
  two files of the same name with different bytes get the same digest at the same clock
  reading.
\<close>

theorem calculateMD5Fallback_not_content_addressed:
  "calculateMD5 spark NoWorker 1 cs \<lparr>file_name = ''a.bin'', file_bytes = [1, 2, 3]\<rparr>
     = Inr ''md5-1-a.bin''
   \<and> calculateMD5 spark NoWorker 2 cs \<lparr>file_name = ''a.bin'', file_bytes = [1, 2, 3]\<rparr>
     = Inr ''md5-2-a.bin''
   \<and> calculateMD5 spark WorkerInitThrows 2 cs
       \<lparr>file_name = ''a.bin'', file_bytes = [1, 2, 3]\<rparr> = Inr ''md5-2-a.bin''
   \<and> calculateMD5 spark NoWorker 2 cs \<lparr>file_name = ''a.bin'', file_bytes = [7]\<rparr>
     = Inr ''md5-2-a.bin''"
  by (simp add: calculateMD5_def calculateMD5Fallback_def string_of_nat.simps digit_char_def)

section \<open>The invariant of one call\<close>

lemmas prim_defs = emit_def updateFileStatus_def set_status_def set_worker_def
  catch_clause_def succeed_def call_mergeFile_def

lemma task_inv_new: "task_inv cfg (new_task cfg i f)"
  by (simp add: task_inv_def new_task_def new_item_def)

lemma task_inv_processFile:
  "task_inv cfg t \<Longrightarrow> pc t = NotStarted \<Longrightarrow> status (item t) = Pending \<Longrightarrow> task_inv cfg (processFile t)"
  by (simp add: task_inv_def processFile_def prim_defs live_def terminal_def)

lemma task_inv_cancel_item: "task_inv cfg t \<Longrightarrow> task_inv cfg (cancel_item t)"
  by (cases "pc t") (auto simp: task_inv_def cancel_item_def prim_defs live_def terminal_def)

lemma task_inv_destroy_item: "task_inv cfg t \<Longrightarrow> task_inv cfg (destroy_item t)"
  by (cases "pc t") (auto simp: task_inv_def destroy_item_def prim_defs live_def terminal_def)

lemma task_inv_catch_clause:
  "task_inv cfg t \<Longrightarrow> in_flight t \<Longrightarrow> task_inv cfg (catch_clause e t)"
  by (cases "pc t"; cases e)
     (auto simp: task_inv_def prim_defs live_def terminal_def in_flight_def all_done_def)

lemma task_inv_after_md5:
  assumes "task_inv cfg t" and "pc t = AwaitMD5"
  shows "task_inv cfg (after_md5 res t)"
proof (cases res)
  case (Inl e)
  with assms show ?thesis
    by (simp add: after_md5_def task_inv_catch_clause in_flight_def)
next
  case (Inr d)
  with assms show ?thesis
    by (simp add: after_md5_def Let_def task_inv_def emit_def live_def)
qed

lemma task_inv_succeed:
  "task_inv cfg t \<Longrightarrow> all_done (workers t) \<Longrightarrow> task_inv cfg (succeed t)"
  by (simp add: task_inv_def prim_defs terminal_def)

lemma task_inv_after_merge:
  assumes "task_inv cfg t" and "pc t = AwaitMerge"
  shows "task_inv cfg (after_merge out t)"
proof (cases "http_json out")
  case (Inl e)
  with assms show ?thesis
    by (simp add: after_merge_def task_inv_catch_clause in_flight_def)
next
  case (Inr r)
  from assms have "all_done (workers t)" by (simp add: task_inv_def)
  with Inr assms show ?thesis
    by (simp add: after_merge_def task_inv_succeed)
qed

lemma frame_refl: "frame t t"
  by (simp add: frame_def)

lemma frame_trans: "frame t t' \<Longrightarrow> frame t' t'' \<Longrightarrow> frame t t''"
  by (simp add: frame_def)

lemma frame_retry_head: "frame t (retry_head cfg w c i e t)"
  by (simp add: frame_def retry_head_def prim_defs)

lemma frame_uploadChunk: "frame t (uploadChunk cfg w c t)"
  by (simp add: frame_def uploadChunk_def retry_head_def prim_defs)

lemma frame_worker_loop: "frame t (worker_loop cfg w t)"
  by (simp add: frame_def worker_loop_def uploadChunk_def retry_head_def prim_defs)

lemma frame_chunk_uploaded: "frame t (chunk_uploaded cfg w c t)"
  by (simp add: frame_def chunk_uploaded_def worker_loop_def uploadChunk_def retry_head_def
        prim_defs Let_def)

lemma frame_fold_worker_loop: "frame t (fold (worker_loop cfg) ws t)"
proof (induction ws arbitrary: t)
  case Nil
  show ?case by (simp add: frame_refl)
next
  case (Cons w ws)
  show ?case
    using frame_trans [OF frame_worker_loop Cons.IH] by simp
qed

lemma live_frame: "frame t t' \<Longrightarrow> live t \<Longrightarrow> live t'"
  by (simp add: frame_def live_def)

lemma task_inv_frame_chunks:
  "task_inv cfg t \<Longrightarrow> frame t t' \<Longrightarrow> pc t = AwaitChunks \<Longrightarrow> task_inv cfg t'"
  by (simp add: task_inv_def frame_def live_def)

lemma task_inv_frame_settled:
  "task_inv cfg t \<Longrightarrow> frame t t' \<Longrightarrow> pc t = Settled \<Longrightarrow> status (item t) \<noteq> Success
     \<Longrightarrow> task_inv cfg t'"
  by (simp add: task_inv_def frame_def)

lemma promise_all_other: "pc t \<noteq> AwaitChunks \<Longrightarrow> promise_all t = t"
  by (simp add: promise_all_def)

lemma task_inv_promise_all:
  assumes "task_inv cfg t"
  shows "task_inv cfg (promise_all t)"
proof (cases "pc t = AwaitChunks")
  case False
  with assms show ?thesis by (simp add: promise_all_other)
next
  case True
  then have fl: "in_flight t" by (simp add: in_flight_def)
  show ?thesis
  proof (cases "thrown (workers t)")
    case (Cons e es)
    with True assms fl show ?thesis
      by (simp add: promise_all_def task_inv_catch_clause)
  next
    case Nil
    show ?thesis
    proof (cases "list_all (\<lambda>x. x = WDone) (workers t)")
      case False
      with Nil True assms show ?thesis by (simp add: promise_all_def)
    next
      case alld: True
      show ?thesis
      proof (cases "aborted t")
        case True
        with alld Nil \<open>pc t = AwaitChunks\<close> assms fl show ?thesis
          by (simp add: promise_all_def task_inv_catch_clause)
      next
        case False
        with alld Nil \<open>pc t = AwaitChunks\<close> assms show ?thesis
          by (simp add: promise_all_def task_inv_def prim_defs live_def terminal_def
                all_done_def)
      qed
    qed
  qed
qed

lemma busy_worker_pc:
  assumes "task_inv cfg t" and "w < length (workers t)" and "workers t ! w \<noteq> WDone"
  shows "pc t = AwaitChunks \<or> (pc t = Settled \<and> status (item t) \<noteq> Success)"
proof -
  from assms(2,3) have nd: "\<not> all_done (workers t)"
    by (auto simp: all_done_def list_all_length)
  from assms(2) have ne: "workers t \<noteq> []" by auto
  from assms(1) nd ne show ?thesis
    by (cases "pc t") (simp_all add: task_inv_def)
qed

lemma task_inv_frame_busy:
  assumes "task_inv cfg t" and "w < length (workers t)" and "workers t ! w \<noteq> WDone"
    and "frame t t'"
  shows "task_inv cfg t'"
proof -
  from busy_worker_pc [OF assms(1,2,3)] show ?thesis
  proof
    assume "pc t = AwaitChunks"
    with assms(1,4) show ?thesis by (rule task_inv_frame_chunks)
  next
    assume "pc t = Settled \<and> status (item t) \<noteq> Success"
    then have "pc t = Settled" and "status (item t) \<noteq> Success" by simp_all
    with assms(1,4) show ?thesis by (rule task_inv_frame_settled)
  qed
qed

lemma frame_set_worker: "frame t (set_worker w x t)"
  by (simp add: frame_def set_worker_def)

lemma frame_sleep: "frame t (set_worker w x (emit e t))"
  by (simp add: frame_def set_worker_def emit_def)

lemma task_inv_after_chunk:
  assumes "task_inv cfg t" and "after_chunk cfg w out t = Some t'"
  shows "task_inv cfg t'"
proof -
  from assms(2) obtain c i where w: "w < length (workers t)" and f: "workers t ! w = WFetch c i"
    by (auto simp: after_chunk_def split: if_splits worker.splits)
  define t1 where "t1 = (case attempt out of
                  Inr r \<Rightarrow> chunk_uploaded cfg w c t
                | Inl e \<Rightarrow>
                    if e = AbortError then set_worker w (WThrown e) t
                    else if i < maxRetries cfg
                    then set_worker w (WSleep c i e)
                           (emit (SetTimeout (backoff_delay i)) t)
                    else retry_head cfg w c (Suc i) e t)"
  have "frame t t1"
    unfolding t1_def
    by (simp add: frame_chunk_uploaded frame_set_worker frame_sleep frame_retry_head
          split: sum.splits)
  moreover from f have "workers t ! w \<noteq> WDone" by simp
  ultimately have "task_inv cfg t1"
    using assms(1) w task_inv_frame_busy [of cfg t w t1] by blast
  moreover from assms(2) w f have "t' = promise_all t1"
    by (simp add: after_chunk_def t1_def)
  ultimately show ?thesis by (simp add: task_inv_promise_all)
qed

lemma task_inv_after_sleep:
  assumes "task_inv cfg t" and "after_sleep cfg w t = Some t'"
  shows "task_inv cfg t'"
proof -
  from assms(2) obtain c i e where w: "w < length (workers t)"
    and f: "workers t ! w = WSleep c i e"
    by (auto simp: after_sleep_def split: if_splits worker.splits)
  have "frame t (retry_head cfg w c (Suc i) e t)" by (rule frame_retry_head)
  moreover from f have "workers t ! w \<noteq> WDone" by simp
  ultimately have "task_inv cfg (retry_head cfg w c (Suc i) e t)"
    using assms(1) w task_inv_frame_busy [of cfg t w "retry_head cfg w c (Suc i) e t"] by blast
  moreover from assms(2) w f have "t' = promise_all (retry_head cfg w c (Suc i) e t)"
    by (simp add: after_sleep_def)
  ultimately show ?thesis by (simp add: task_inv_promise_all)
qed

lemma task_inv_uploadChunksWithConcurrency:
  assumes "task_inv cfg t" and "pc t = AwaitCheck" and "\<not> aborted t"
  shows "task_inv cfg (uploadChunksWithConcurrency cfg cs
           (updateFileStatus (set_status Uploading (t\<lparr>checkResult := Some r,
               item := (item t)\<lparr>uploadedChunks := us\<rparr>\<rparr>))))"
proof -
  let ?t0 = "(updateFileStatus (set_status Uploading (t\<lparr>checkResult := Some r,
               item := (item t)\<lparr>uploadedChunks := us\<rparr>\<rparr>)))
      \<lparr>chunksToUpload := cs, index := 0,
        workers := replicate (concurrentChunks cfg) WDone, pc := AwaitChunks\<rparr>"
  from assms have "task_inv cfg ?t0"
    by (simp add: task_inv_def prim_defs live_def terminal_def)
  moreover have "frame ?t0 (fold (worker_loop cfg) [0..<concurrentChunks cfg] ?t0)"
    by (rule frame_fold_worker_loop)
  moreover have "pc ?t0 = AwaitChunks" by (simp add: prim_defs)
  ultimately have "task_inv cfg (fold (worker_loop cfg) [0..<concurrentChunks cfg] ?t0)"
    by (rule task_inv_frame_chunks)
  then show ?thesis
    unfolding uploadChunksWithConcurrency_def by (rule task_inv_promise_all)
qed

lemma task_inv_after_check:
  assumes "task_inv cfg t" and "pc t = AwaitCheck" and "abort_consistent t out"
  shows "task_inv cfg (after_check cfg out t)"
proof (cases "http_json out")
  case (Inl e)
  with assms show ?thesis
    by (simp add: after_check_def task_inv_catch_clause in_flight_def)
next
  case (Inr r)
  then have "out \<noteq> Rejected AbortError"
    by (auto simp: http_json_def)
  with assms(3) have na: "\<not> aborted t" by (simp add: abort_consistent_def)
  from assms(1,2) have w: "workers t = []" by (simp add: task_inv_def)
  show ?thesis
  proof (cases "exists_r r")
    case True
    have "task_inv cfg (succeed (t\<lparr>checkResult := Some r\<rparr>))"
      using assms(1,2) w by (simp add: task_inv_def prim_defs terminal_def all_done_def)
    with Inr True show ?thesis by (simp add: after_check_def)
  next
    case False
    show ?thesis
    proof (cases "filter (\<lambda>i. i \<notin> set (uploadedChunks_r r)) [0..<totalChunks (item t)] = []")
      case True
      with Inr False assms(1,2) na w show ?thesis
        by (auto simp: after_check_def Let_def task_inv_def prim_defs live_def all_done_def
              terminal_def)
    next
      case ne: False
      from task_inv_uploadChunksWithConcurrency [OF assms(1,2) na]
      show ?thesis using Inr False ne
        by (simp add: after_check_def Let_def prim_defs)
    qed
  qed
qed

lemma task_inv_task_event:
  assumes "task_inv cfg t" and "task_event cfg ev t = Some t'"
  shows "task_inv cfg t'"
proof (cases ev)
  case (MD5Settled res)
  with assms(2) have "pc t = AwaitMD5" and "t' = after_md5 res t"
    by (simp_all add: task_event_def split: if_splits)
  with assms(1) show ?thesis by (simp add: task_inv_after_md5)
next
  case (CheckSettled out)
  with assms(2) have "pc t = AwaitCheck" and "abort_consistent t out"
    and "t' = after_check cfg out t"
    by (simp_all add: task_event_def split: if_splits)
  with assms(1) show ?thesis by (simp add: task_inv_after_check)
next
  case (ChunkSettled w out)
  with assms(2) have "after_chunk cfg w out t = Some t'"
    by (simp add: task_event_def split: if_splits)
  with assms(1) show ?thesis by (rule task_inv_after_chunk)
next
  case (TimerFired w)
  with assms(2) have "after_sleep cfg w t = Some t'"
    by (simp add: task_event_def)
  with assms(1) show ?thesis by (rule task_inv_after_sleep)
next
  case (MergeSettled out)
  with assms(2) have "pc t = AwaitMerge" and "t' = after_merge out t"
    by (simp_all add: task_event_def split: if_splits)
  with assms(1) show ?thesis by (simp add: task_inv_after_merge)
qed

lemma task_inv_task_step:
  assumes "task_inv cfg t" and "task_step cfg a t = Some t'"
  shows "task_inv cfg t'"
proof (cases a)
  case Dispatch
  with assms(2) have "pc t = NotStarted" and "status (item t) = Pending" and "t' = processFile t"
    by (simp_all add: task_step_def split: if_splits)
  with assms(1) show ?thesis by (simp add: task_inv_processFile)
next
  case (Deliver ev)
  with assms(2) have "task_event cfg ev t = Some t'" by (simp add: task_step_def)
  with assms(1) show ?thesis by (rule task_inv_task_event)
next
  case CancelUpload
  with assms(2) have "t' = cancel_item t" by (simp add: task_step_def)
  with assms(1) show ?thesis by (simp add: task_inv_cancel_item)
next
  case Destroy
  with assms(2) have "t' = destroy_item t" by (simp add: task_step_def)
  with assms(1) show ?thesis by (simp add: task_inv_destroy_item)
qed

lemma task_inv_task_run:
  "task_inv cfg t \<Longrightarrow> task_run cfg as t = Some t' \<Longrightarrow> task_inv cfg t'"
proof (induction as arbitrary: t)
  case Nil
  then show ?case by simp
next
  case (Cons a as)
  from Cons.prems(2) obtain t1 where s: "task_step cfg a t = Some t1"
    and r: "task_run cfg as t1 = Some t'"
    by (simp split: option.splits)
  from Cons.prems(1) s have "task_inv cfg t1" by (rule task_inv_task_step)
  from Cons.IH [OF this r] show ?case .
qed

lemma task_reachable_inv:
  assumes "task_reachable cfg t"
  shows "task_inv cfg t"
proof -
  from assms obtain i f as where "task_run cfg as (new_task cfg i f) = Some t"
    unfolding task_reachable_def by blast
  with task_inv_new [of cfg i f] show ?thesis by (rule task_inv_task_run)
qed

section \<open>Terminal statuses\<close>

text \<open>
  What a step does to the status of an item that is \<open>success\<close>, \<open>error\<close> or \<open>cancelled\<close>.
  What it does to the other fields is in the section on cancelled and failed items.
\<close>

lemma cancel_item_terminal: "terminal (status (item t)) \<Longrightarrow> cancel_item t = t"
  by (auto simp: cancel_item_def terminal_def)

lemma destroy_item_item: "item (destroy_item t) = item t" "effects (destroy_item t) = effects t"
  by (simp_all add: destroy_item_def)


lemma status_catch_clause:
  "terminal (status (item (catch_clause e t)))"
  "status (item (catch_clause AbortError t)) = Cancelled"
  by (cases e) (simp_all add: prim_defs terminal_def)


lemma frame_after_chunk_inner:
  "frame t (case attempt out of
              Inr r \<Rightarrow> chunk_uploaded cfg w c t
            | Inl e \<Rightarrow>
                if e = AbortError then set_worker w (WThrown e) t
                else if i < maxRetries cfg
                then set_worker w (WSleep c i e) (emit (SetTimeout (backoff_delay i)) t)
                else retry_head cfg w c (Suc i) e t)"
  by (simp add: frame_chunk_uploaded frame_set_worker frame_sleep frame_retry_head
        split: sum.splits)

text \<open>A worker event: the worker's own code, then the listener of \<open>Promise.all\<close>.\<close>

lemma worker_event_shape:
  assumes "task_event cfg ev t = Some t'" and "ev = ChunkSettled w out \<or> ev = TimerFired w"
  shows "\<exists>t1. frame t t1 \<and> t' = promise_all t1 \<and> w < length (workers t)
           \<and> workers t ! w \<noteq> WDone"
proof -
  from assms(2) show ?thesis
  proof
    assume ev: "ev = ChunkSettled w out"
    with assms(1) have ac: "after_chunk cfg w out t = Some t'"
      by (simp add: task_event_def split: if_splits)
    then obtain c i where w: "w < length (workers t)" and f: "workers t ! w = WFetch c i"
      by (auto simp: after_chunk_def split: if_splits worker.splits)
    let ?t1 = "case attempt out of
              Inr r \<Rightarrow> chunk_uploaded cfg w c t
            | Inl e \<Rightarrow>
                if e = AbortError then set_worker w (WThrown e) t
                else if i < maxRetries cfg
                then set_worker w (WSleep c i e) (emit (SetTimeout (backoff_delay i)) t)
                else retry_head cfg w c (Suc i) e t"
    from ac w f have "t' = promise_all ?t1"
      by (simp add: after_chunk_def)
    moreover have "frame t ?t1" by (rule frame_after_chunk_inner)
    ultimately show ?thesis using w f
      by (intro exI [of _ ?t1]) simp
  next
    assume ev: "ev = TimerFired w"
    with assms(1) have ac: "after_sleep cfg w t = Some t'"
      by (simp add: task_event_def)
    then obtain c i e where w: "w < length (workers t)" and f: "workers t ! w = WSleep c i e"
      by (auto simp: after_sleep_def split: if_splits worker.splits)
    with ac have "t' = promise_all (retry_head cfg w c (Suc i) e t)"
      by (simp add: after_sleep_def)
    moreover have "frame t (retry_head cfg w c (Suc i) e t)" by (rule frame_retry_head)
    ultimately show ?thesis using w f
      by (intro exI [of _ "retry_head cfg w c (Suc i) e t"]) simp
  qed
qed



section \<open>Instant transfer\<close>

lemma checkResult_promise_all: "checkResult (promise_all t) = checkResult t"
  by (simp add: promise_all_def prim_defs split: list.splits js_error.splits)

lemma checkResult_task_event:
  assumes "task_event cfg ev t = Some t'" and "\<And>out. ev \<noteq> CheckSettled out"
  shows "checkResult t' = checkResult t"
proof (cases ev)
  case (MD5Settled res)
  with assms(1) show ?thesis
    by (auto simp: task_event_def after_md5_def prim_defs Let_def
        split: if_splits sum.splits js_error.splits)
next
  case (CheckSettled out)
  with assms(2) [of out] show ?thesis by simp
next
  case (ChunkSettled w out)
  then have "ev = ChunkSettled w out \<or> ev = TimerFired w" by simp
  from worker_event_shape [OF assms(1) this] show ?thesis
    by (auto simp: frame_def checkResult_promise_all)
next
  case (TimerFired w)
  then have "ev = ChunkSettled w (Rejected AbortError) \<or> ev = TimerFired w" by simp
  from worker_event_shape [OF assms(1) this] show ?thesis
    by (auto simp: frame_def checkResult_promise_all)
next
  case (MergeSettled out)
  with assms(1) show ?thesis
    by (auto simp: task_event_def after_merge_def prim_defs
        split: if_splits sum.splits js_error.splits)
qed

lemma instant_inv_new: "instant_inv (new_task cfg i f)"
  by (simp add: instant_inv_def new_task_def no_upload_or_merge_def)

lemma instant_inv_task_event:
  assumes "task_inv cfg t" and "instant_inv t" and "task_event cfg ev t = Some t'"
  shows "instant_inv t'"
proof (cases "\<exists>out. ev = CheckSettled out")
  case True
  then obtain out where ev: "ev = CheckSettled out" by blast
  with assms(3) have pc: "pc t = AwaitCheck" and t': "t' = after_check cfg out t"
    by (simp_all add: task_event_def split: if_splits)
  with assms(1) have n: "checkResult t = None" and w: "workers t = []"
    by (simp_all add: task_inv_def)
  with assms(2) have q: "no_upload_or_merge (effects t)" by (simp add: instant_inv_def)
  show ?thesis
  proof (cases "http_json out")
    case (Inl e)
    with t' n w q show ?thesis
      by (cases e) (simp_all add: after_check_def instant_inv_def prim_defs no_upload_or_merge_def)
  next
    case (Inr r)
    show ?thesis
    proof (cases "exists_r r")
      case True
      with Inr t' n w q show ?thesis
        by (simp add: after_check_def instant_inv_def prim_defs no_upload_or_merge_def)
    next
      case False
      have "checkResult (after_check cfg out t) = Some r"
        using Inr False
        by (simp add: after_check_def Let_def prim_defs uploadChunksWithConcurrency_def
              checkResult_promise_all frame_fold_worker_loop [unfolded frame_def])
      with False t' show ?thesis by (simp add: instant_inv_def)
    qed
  qed
next
  case False
  then have cr: "checkResult t' = checkResult t"
    using checkResult_task_event [OF assms(3)] by blast
  show ?thesis
  proof (cases "checkResult t")
    case (Some r)
    show ?thesis
    proof (cases "exists_r r")
      case True
      with Some assms(2) have "pc t = Settled" and "workers t = []"
        by (simp_all add: instant_inv_def)
      with assms(3) have False
        by (cases ev)
           (simp_all add: task_event_def after_chunk_def after_sleep_def split: if_splits)
      then show ?thesis ..
    next
      case False
      with Some cr show ?thesis by (simp add: instant_inv_def)
    qed
  next
    case None
    with assms(2) have w: "workers t = []" and q: "no_upload_or_merge (effects t)"
      by (simp_all add: instant_inv_def)
    show ?thesis
    proof (cases ev)
      case (MD5Settled res)
      with assms(3) have "t' = after_md5 res t" by (simp add: task_event_def split: if_splits)
      with None w q show ?thesis
        by (auto simp: after_md5_def instant_inv_def prim_defs no_upload_or_merge_def Let_def
            split: sum.splits js_error.splits)
    next
      case (CheckSettled out)
      with False show ?thesis by simp
    next
      case (ChunkSettled k out)
      with assms(3) w show ?thesis by (simp add: task_event_def after_chunk_def split: if_splits)
    next
      case (TimerFired k)
      with assms(3) w show ?thesis by (simp add: task_event_def after_sleep_def)
    next
      case (MergeSettled out)
      with assms(3) have "t' = after_merge out t" by (simp add: task_event_def split: if_splits)
      with None w q show ?thesis
        by (auto simp: after_merge_def instant_inv_def prim_defs no_upload_or_merge_def
            split: sum.splits js_error.splits)
    qed
  qed
qed

lemma instant_inv_task_step:
  assumes "task_inv cfg t" and "instant_inv t" and "task_step cfg a t = Some t'"
  shows "instant_inv t'"
proof (cases a)
  case Dispatch
  with assms(3) have "pc t = NotStarted" and "t' = processFile t"
    by (simp_all add: task_step_def split: if_splits)
  with assms(1,2) show ?thesis
    by (simp add: task_inv_def instant_inv_def processFile_def prim_defs no_upload_or_merge_def)
next
  case (Deliver ev)
  with assms(3) have "task_event cfg ev t = Some t'" by (simp add: task_step_def)
  with assms(1,2) show ?thesis by (rule instant_inv_task_event)
next
  case CancelUpload
  with assms(3) have "t' = cancel_item t" by (simp add: task_step_def)
  with assms(2) show ?thesis
    by (cases "checkResult t")
       (auto simp: instant_inv_def cancel_item_def prim_defs no_upload_or_merge_def)
next
  case Destroy
  with assms(3) have "t' = destroy_item t" by (simp add: task_step_def)
  with assms(2) show ?thesis
    by (cases "checkResult t") (auto simp: instant_inv_def destroy_item_def)
qed

lemma instant_inv_task_run:
  "task_inv cfg t \<Longrightarrow> instant_inv t \<Longrightarrow> task_run cfg acts t = Some t' \<Longrightarrow> instant_inv t'"
proof (induction acts arbitrary: t)
  case Nil
  then show ?case by simp
next
  case (Cons a acts)
  from Cons.prems(3) obtain t1 where s: "task_step cfg a t = Some t1"
    and r: "task_run cfg acts t1 = Some t'"
    by (simp split: option.splits)
  from Cons.prems(1) s have "task_inv cfg t1" by (rule task_inv_task_step)
  moreover from Cons.prems(1,2) s have "instant_inv t1" by (rule instant_inv_task_step)
  ultimately show ?case using r by (rule Cons.IH)
qed

text \<open>
  Claim C4. In every state of a task whose check response reported \<open>exists = true\<close>, the
  status is \<open>success\<close>, the progress is 100, the call has settled, and no chunk upload
  and no merge was ever requested for it.
\<close>

theorem instant_transfer_no_upload_no_merge:
  assumes "task_run cfg acts (new_task cfg i f) = Some t"
    and "checkResult t = Some r" and "exists_r r"
  shows "status (item t) = Success \<and> progress (item t) = 100 \<and> pc t = Settled
    \<and> (\<forall>e \<in> set (effects t). (\<forall>fd. e \<noteq> FetchChunk fd) \<and> (\<forall>d n k. e \<noteq> FetchMerge d n k))"
proof -
  from instant_inv_task_run [OF task_inv_new instant_inv_new assms(1)] assms(2,3)
  have "status (item t) = Success" "progress (item t) = 100" "pc t = Settled"
    and q: "no_upload_or_merge (effects t)"
    by (simp_all add: instant_inv_def)
  moreover from q have "\<forall>e \<in> set (effects t). (\<forall>fd. e \<noteq> FetchChunk fd) \<and> (\<forall>d n k. e \<noteq> FetchMerge d n k)"
    by (auto simp: no_upload_or_merge_def list_all_iff)
  ultimately show ?thesis by simp
qed

section \<open>Chunk scheduler\<close>

lemma mset_in_progress_update:
  "w < length ws \<Longrightarrow>
     mset (in_progress (ws[w := x])) + mset (claimed (ws ! w))
       = mset (in_progress ws) + mset (claimed x)"
proof (induction ws arbitrary: w)
  case Nil
  then show ?case by simp
next
  case (Cons y ws)
  show ?case
  proof (cases w)
    case 0
    then show ?thesis by (simp add: in_progress_def)
  next
    case (Suc v)
    with Cons.prems have "v < length ws" by simp
    from Cons.IH [OF this] Suc show ?thesis
      by (simp add: in_progress_def ac_simps)
  qed
qed

lemma thrown_empty_iff: "thrown ws = [] \<longleftrightarrow> (\<forall>x \<in> set ws. \<forall>e. x \<noteq> WThrown e)"
  by (induction ws) (auto simp: thrown_def split: worker.splits)

lemma thrown_update:
  assumes "thrown ws = []" and "\<And>e. x \<noteq> WThrown e"
  shows "thrown (ws[w := x]) = []"
proof -
  have "set (ws[w := x]) \<subseteq> insert x (set ws)" by (rule set_update_subset_insert)
  with assms show ?thesis unfolding thrown_empty_iff by blast
qed

lemma thrown_update_WThrown:
  "w < length ws \<Longrightarrow> thrown (ws[w := WThrown e]) \<noteq> []"
  unfolding thrown_empty_iff using set_update_memI by fastforce

lemma in_progress_all_done: "list_all (\<lambda>x. x = WDone) ws \<Longrightarrow> in_progress ws = []"
  by (induction ws) (simp_all add: in_progress_def claimed_def)

lemma worker_loop_claim:
  assumes "index t < length (chunksToUpload t)" and "\<not> aborted t"
  shows "workers (worker_loop cfg w t) = (workers t)[w := WFetch (chunksToUpload t ! index t) 0]"
    and "index (worker_loop cfg w t) = Suc (index t)"
    and "item (worker_loop cfg w t) = item t"
    and "chunksToUpload (worker_loop cfg w t) = chunksToUpload t"
    and "aborted (worker_loop cfg w t) = aborted t"
  using assms by (simp_all add: worker_loop_def uploadChunk_def retry_head_def prim_defs)

lemma worker_loop_finish:
  assumes "\<not> (index t < length (chunksToUpload t) \<and> \<not> aborted t)"
  shows "worker_loop cfg w t = set_worker w WDone t"
  using assms by (auto simp: worker_loop_def)

text \<open>
  A worker at the head of its loop, holding no chunk: whatever the others hold, the pool
  stays consistent.
\<close>

lemma pool_inv_worker_loop:
  assumes w: "w < length (workers t)" and wk: "w \<le> k"
    and ix: "index t \<le> length (chunksToUpload t)"
    and th: "thrown (workers t) = []"
    and ms: "mset (uploadedChunks (item t)) + mset (in_progress ((workers t)[w := WDone]))
        = mset us + mset (take (index t) (chunksToUpload t))"
    and dn: "\<forall>j<k. j \<noteq> w \<longrightarrow> j < length (workers t) \<longrightarrow> workers t ! j = WDone
         \<longrightarrow> index t = length (chunksToUpload t) \<or> aborted t"
  shows "pool_inv (max k (Suc w)) us (worker_loop cfg w t)"
proof (cases "index t < length (chunksToUpload t) \<and> \<not> aborted t")
  case True
  then have lt: "index t < length (chunksToUpload t)" and na: "\<not> aborted t" by simp_all
  note wl = worker_loop_claim [OF lt na, of cfg w]
  let ?c = "chunksToUpload t ! index t"
  have "mset (in_progress (((workers t)[w := WDone])[w := WFetch ?c 0]))
          + mset (claimed (((workers t)[w := WDone]) ! w))
      = mset (in_progress ((workers t)[w := WDone])) + mset (claimed (WFetch ?c 0))"
    using w by (intro mset_in_progress_update) simp
  then have ip: "mset (in_progress ((workers t)[w := WFetch ?c 0]))
      = mset (in_progress ((workers t)[w := WDone])) + {#?c#}"
    using w by (simp add: claimed_def)
  have tk: "take (Suc (index t)) (chunksToUpload t) = take (index t) (chunksToUpload t) @ [?c]"
    using lt by (rule take_Suc_conv_app_nth)
  have a: "index (worker_loop cfg w t) \<le> length (chunksToUpload (worker_loop cfg w t))"
    using lt by (simp add: wl)
  have b: "thrown (workers (worker_loop cfg w t)) = []"
    using th by (simp add: wl thrown_update)
  have c: "mset (uploadedChunks (item (worker_loop cfg w t)))
        + mset (in_progress (workers (worker_loop cfg w t)))
      = mset us + mset (take (index (worker_loop cfg w t))
                          (chunksToUpload (worker_loop cfg w t)))"
    using ms by (simp add: wl ip tk)
  have d: "\<forall>j<max k (Suc w). j < length (workers (worker_loop cfg w t))
      \<longrightarrow> workers (worker_loop cfg w t) ! j = WDone
      \<longrightarrow> index (worker_loop cfg w t) = length (chunksToUpload (worker_loop cfg w t))
          \<or> aborted (worker_loop cfg w t)"
  proof (intro allI impI)
    fix j assume j: "j < max k (Suc w)" "j < length (workers (worker_loop cfg w t))"
      and jd: "workers (worker_loop cfg w t) ! j = WDone"
    from jd w have jw: "j \<noteq> w" by (auto simp: wl)
    with j(1) wk have "j < k" by simp
    moreover from jd jw have "workers t ! j = WDone" by (simp add: wl)
    moreover from j(2) have "j < length (workers t)" by (simp add: wl)
    ultimately have "index t = length (chunksToUpload t) \<or> aborted t"
      using dn jw by blast
    with lt na show "index (worker_loop cfg w t) = length (chunksToUpload (worker_loop cfg w t))
          \<or> aborted (worker_loop cfg w t)" by simp
  qed
  from a b c d show ?thesis unfolding pool_inv_def by blast
next
  case False
  then have wl: "worker_loop cfg w t = set_worker w WDone t" by (rule worker_loop_finish)
  from False ix have fin: "index t = length (chunksToUpload t) \<or> aborted t" by auto
  have b: "thrown ((workers t)[w := WDone]) = []"
    using th by (simp add: thrown_update)
  have d: "\<forall>j<max k (Suc w). j < length ((workers t)[w := WDone])
      \<longrightarrow> (workers t)[w := WDone] ! j = WDone
      \<longrightarrow> index t = length (chunksToUpload t) \<or> aborted t"
    using fin by blast
  from ix b ms d show ?thesis
    unfolding pool_inv_def wl by (simp add: set_worker_def)
qed

lemma worker_loop_workers: "\<exists>x. workers (worker_loop cfg w t) = (workers t)[w := x]"
  by (auto simp: worker_loop_def uploadChunk_def retry_head_def prim_defs)

text \<open>Starting the pool: after the first \<open>k\<close> workers have run to their first \<open>await\<close>.\<close>

lemma pool_inv_start:
  assumes "workers t0 = replicate n WDone" and "index t0 = 0" and "\<not> aborted t0"
    and "uploadedChunks (item t0) = us"
  shows "k \<le> n \<Longrightarrow>
     pool_inv k us (fold (worker_loop cfg) [0..<k] t0)
     \<and> (\<forall>j. k \<le> j \<and> j < n \<longrightarrow> workers (fold (worker_loop cfg) [0..<k] t0) ! j = WDone)"
proof (induction k)
  case 0
  from assms show ?case
    by (simp add: pool_inv_def in_progress_all_done list_all_length thrown_empty_iff)
next
  case (Suc k)
  let ?t = "fold (worker_loop cfg) [0..<k] t0"
  from Suc have ih: "pool_inv k us ?t"
    and ph: "\<forall>j. k \<le> j \<and> j < n \<longrightarrow> workers ?t ! j = WDone"
    by simp_all
  have fr: "frame t0 ?t" by (rule frame_fold_worker_loop)
  with assms(1) have len: "length (workers ?t) = n" by (simp add: frame_def)
  from Suc.prems have kn: "k < n" by simp
  with ph have wk: "workers ?t ! k = WDone" by simp
  with kn len have id: "(workers ?t)[k := WDone] = workers ?t"
    by (metis list_update_id)
  have st: "fold (worker_loop cfg) [0..<Suc k] t0 = worker_loop cfg k ?t" by simp
  have "pool_inv (max k (Suc k)) us (worker_loop cfg k ?t)"
  proof (rule pool_inv_worker_loop)
    show "k < length (workers ?t)" using kn len by simp
    show "k \<le> k" by simp
    show "index ?t \<le> length (chunksToUpload ?t)" using ih by (simp add: pool_inv_def)
    show "thrown (workers ?t) = []" using ih by (simp add: pool_inv_def)
    show "mset (uploadedChunks (item ?t)) + mset (in_progress ((workers ?t)[k := WDone]))
        = mset us + mset (take (index ?t) (chunksToUpload ?t))"
      using ih unfolding id by (simp add: pool_inv_def)
    show "\<forall>j<k. j \<noteq> k \<longrightarrow> j < length (workers ?t) \<longrightarrow> workers ?t ! j = WDone
         \<longrightarrow> index ?t = length (chunksToUpload ?t) \<or> aborted ?t"
      using ih by (simp add: pool_inv_def)
  qed
  then have a: "pool_inv (Suc k) us (fold (worker_loop cfg) [0..<Suc k] t0)"
    by (simp add: st)
  from worker_loop_workers [of cfg k ?t] obtain x
    where x: "workers (worker_loop cfg k ?t) = (workers ?t)[k := x]" by blast
  have b: "\<forall>j. Suc k \<le> j \<and> j < n
      \<longrightarrow> workers (fold (worker_loop cfg) [0..<Suc k] t0) ! j = WDone"
    using ph by (simp add: st x)
  from a b show ?case by blast
qed

lemma pool_inv_emit: "pool_inv k us (emit e t) = pool_inv k us t"
  by (simp add: pool_inv_def emit_def)

text \<open>A worker that keeps its chunk (it goes to sleep, or sends the next attempt).\<close>

lemma pool_inv_keep_chunk:
  assumes "pool_inv k us t" and "w < length (workers t)"
    and "claimed x = claimed (workers t ! w)" and "x \<noteq> WDone" and "\<And>e. x \<noteq> WThrown e"
  shows "pool_inv k us (set_worker w x t)"
proof -
  from mset_in_progress_update [OF assms(2), of x] assms(3)
  have ip: "mset (in_progress ((workers t)[w := x])) = mset (in_progress (workers t))"
    by simp
  have th: "thrown ((workers t)[w := x]) = []"
    using assms(1,5) by (simp add: pool_inv_def thrown_update)
  have dn: "\<forall>j<k. j < length (workers t) \<longrightarrow> (workers t)[w := x] ! j = WDone
      \<longrightarrow> index t = length (chunksToUpload t) \<or> aborted t"
  proof (intro allI impI)
    fix j assume j: "j < k" "j < length (workers t)" and d: "(workers t)[w := x] ! j = WDone"
    with assms(2,4) have "j \<noteq> w" by auto
    with d have "workers t ! j = WDone" by simp
    with assms(1) j show "index t = length (chunksToUpload t) \<or> aborted t"
      by (simp add: pool_inv_def)
  qed
  from assms(1) ip th dn show ?thesis
    by (simp add: pool_inv_def set_worker_def)
qed

lemma pool_inv_chunk_uploaded:
  assumes "pool_inv (length (workers t)) us t" and "w < length (workers t)"
    and "workers t ! w = WFetch c i"
  shows "pool_inv (length (workers t)) us (chunk_uploaded cfg w c t)"
proof -
  let ?t1 = "updateFileStatus (t\<lparr>item := (item t)\<lparr>uploadedChunks := uploadedChunks (item t) @ [c],
      progress := round_percent (length (uploadedChunks (item t) @ [c])) (totalChunks (item t))\<rparr>\<rparr>)"
  have cu: "chunk_uploaded cfg w c t = worker_loop cfg w ?t1"
    by (simp add: chunk_uploaded_def Let_def)
  from mset_in_progress_update [OF assms(2), of WDone] assms(3)
  have ip: "mset (in_progress (workers t)) = mset (in_progress ((workers t)[w := WDone])) + {#c#}"
    by (simp add: claimed_def)
  have "pool_inv (max (length (workers t)) (Suc w)) us (worker_loop cfg w ?t1)"
  proof (rule pool_inv_worker_loop)
    show "w < length (workers ?t1)" using assms(2) by (simp add: prim_defs)
    show "w \<le> length (workers t)" using assms(2) by simp
    show "index ?t1 \<le> length (chunksToUpload ?t1)"
      using assms(1) by (simp add: pool_inv_def prim_defs)
    show "thrown (workers ?t1) = []" using assms(1) by (simp add: pool_inv_def prim_defs)
    show "mset (uploadedChunks (item ?t1)) + mset (in_progress ((workers ?t1)[w := WDone]))
        = mset us + mset (take (index ?t1) (chunksToUpload ?t1))"
      using assms(1) ip by (simp add: pool_inv_def prim_defs)
    show "\<forall>j<length (workers t). j \<noteq> w \<longrightarrow> j < length (workers ?t1)
         \<longrightarrow> workers ?t1 ! j = WDone
         \<longrightarrow> index ?t1 = length (chunksToUpload ?t1) \<or> aborted ?t1"
      using assms(1) by (simp add: pool_inv_def prim_defs)
  qed
  moreover from assms(2) have "max (length (workers t)) (Suc w) = length (workers t)" by simp
  ultimately show ?thesis by (simp add: cu)
qed

lemma retry_head_cases:
  "retry_head cfg w c i e t = set_worker w (WThrown e) t
   \<or> retry_head cfg w c i e t = set_worker w (WThrown AbortError) t
   \<or> retry_head cfg w c i e t
       = set_worker w (WFetch c i) (emit (FetchChunk (formData cfg t c)) t)"
  by (simp add: retry_head_def)

lemma thrown_set_worker: "w < length (workers t) \<Longrightarrow> thrown (workers (set_worker w (WThrown e) t)) \<noteq> []"
  by (simp add: set_worker_def thrown_update_WThrown)

text \<open>
  After the code of a worker event has run, while \<open>Promise.all\<close> is still awaited: either
  the worker has rejected, or the pool is consistent.
\<close>

lemma pool_inv_worker_event:
  assumes "pool_inv (length (workers t)) us t" and "w < length (workers t)"
  shows "workers t ! w = WFetch c i \<Longrightarrow>
      (let t1 = (case attempt out of
              Inr r \<Rightarrow> chunk_uploaded cfg w c t
            | Inl e \<Rightarrow>
                if e = AbortError then set_worker w (WThrown e) t
                else if i < maxRetries cfg
                then set_worker w (WSleep c i e) (emit (SetTimeout (backoff_delay i)) t)
                else retry_head cfg w c (Suc i) e t)
       in thrown (workers t1) \<noteq> [] \<or> pool_inv (length (workers t)) us t1)"
    and "workers t ! w = WSleep c i e' \<Longrightarrow>
      thrown (workers (retry_head cfg w c (Suc i) e' t)) \<noteq> []
      \<or> pool_inv (length (workers t)) us (retry_head cfg w c (Suc i) e' t)"
proof -
  have keep: "pool_inv (length (workers t)) us (set_worker w x (emit ef t))"
    if "claimed x = claimed (workers t ! w)" "x \<noteq> WDone" "\<And>e. x \<noteq> WThrown e" for x ef
  proof -
    from assms(1) have "pool_inv (length (workers t)) us (emit ef t)" by (simp add: pool_inv_emit)
    moreover have "w < length (workers (emit ef t))" using assms(2) by (simp add: emit_def)
    moreover have "claimed x = claimed (workers (emit ef t) ! w)" using that(1) by (simp add: emit_def)
    ultimately show ?thesis using that(2,3) by (rule pool_inv_keep_chunk)
  qed
  have rh: "thrown (workers (retry_head cfg w c k e t)) \<noteq> []
      \<or> pool_inv (length (workers t)) us (retry_head cfg w c k e t)"
    if "claimed (workers t ! w) = [c]" for k e
    using retry_head_cases [of cfg w c k e t] thrown_set_worker [OF assms(2)]
      keep [of "WFetch c k" "FetchChunk (formData cfg t c)"] that
    by (auto simp: claimed_def)
  {
    assume f: "workers t ! w = WFetch c i"
    show "(let t1 = (case attempt out of
              Inr r \<Rightarrow> chunk_uploaded cfg w c t
            | Inl e \<Rightarrow>
                if e = AbortError then set_worker w (WThrown e) t
                else if i < maxRetries cfg
                then set_worker w (WSleep c i e) (emit (SetTimeout (backoff_delay i)) t)
                else retry_head cfg w c (Suc i) e t)
       in thrown (workers t1) \<noteq> [] \<or> pool_inv (length (workers t)) us t1)"
    proof (cases "attempt out")
      case (Inr r)
      with pool_inv_chunk_uploaded [OF assms f, of cfg] show ?thesis by simp
    next
      case (Inl e)
      from f have cl: "claimed (workers t ! w) = [c]" by (simp add: claimed_def)
      show ?thesis
      proof (cases "e = AbortError")
        case True
        with Inl thrown_set_worker [OF assms(2)] show ?thesis by simp
      next
        case ne: False
        show ?thesis
        proof (cases "i < maxRetries cfg")
          case True
          with Inl ne keep [of "WSleep c i e" "SetTimeout (backoff_delay i)"] cl show ?thesis
            by (simp add: claimed_def)
        next
          case False
          with Inl ne rh [OF cl, of "Suc i" e] show ?thesis by simp
        qed
      qed
    qed
  }
  {
    assume f: "workers t ! w = WSleep c i e'"
    then have "claimed (workers t ! w) = [c]" by (simp add: claimed_def)
    from rh [OF this, of "Suc i" e']
    show "thrown (workers (retry_head cfg w c (Suc i) e' t)) \<noteq> []
      \<or> pool_inv (length (workers t)) us (retry_head cfg w c (Suc i) e' t)" .
  }
qed

lemma promise_all_fields:
  "uploadedChunks (item (promise_all t)) = uploadedChunks (item t)"
  "totalChunks (item (promise_all t)) = totalChunks (item t)"
  "workers (promise_all t) = workers t"
  "chunksToUpload (promise_all t) = chunksToUpload t"
  "index (promise_all t) = index t"
  "aborted (promise_all t) = aborted t"
  by (simp_all add: promise_all_def prim_defs split: list.splits js_error.splits)

lemma promise_all_pc:
  "pc (promise_all t) = AwaitChunks \<Longrightarrow> promise_all t = t"
  "pc (promise_all t) = AwaitMerge \<Longrightarrow> pc t = AwaitMerge \<or>
     (pc t = AwaitChunks \<and> thrown (workers t) = [] \<and> list_all (\<lambda>x. x = WDone) (workers t)
        \<and> \<not> aborted t)"
  by (auto simp: promise_all_def prim_defs split: list.splits js_error.splits if_splits)

text \<open>The listener of \<open>Promise.all\<close>, when the pool is consistent or a worker has rejected.\<close>

lemma upload_inv_promise_all:
  assumes "pc t = AwaitChunks" and "checkResult t = Some r" and "workers t \<noteq> []"
    and "thrown (workers t) \<noteq> [] \<or> pool_inv (length (workers t)) (uploadedChunks_r r) t"
    and "chunksToUpload t
          = filter (\<lambda>i. i \<notin> set (uploadedChunks_r r)) [0..<totalChunks (item t)]"
  shows "upload_inv (promise_all t)"
proof -
  have cr: "checkResult (promise_all t) = Some r"
    using assms(2) by (simp add: checkResult_promise_all)
  have a: "pc (promise_all t) = AwaitChunks \<longrightarrow> workers (promise_all t) \<noteq> []
             \<and> pool_inv (length (workers (promise_all t))) (uploadedChunks_r r) (promise_all t)
             \<and> chunksToUpload (promise_all t)
                 = filter (\<lambda>i. i \<notin> set (uploadedChunks_r r))
                     [0..<totalChunks (item (promise_all t))]"
  proof
    assume p: "pc (promise_all t) = AwaitChunks"
    then have id: "promise_all t = t" by (rule promise_all_pc)
    have "thrown (workers t) = []"
    proof (rule ccontr)
      assume "thrown (workers t) \<noteq> []"
      then obtain e es where "thrown (workers t) = e # es" by (cases "thrown (workers t)") auto
      with assms(1) have "pc (promise_all t) = Settled"
        by (simp add: promise_all_def prim_defs)
      with p show False by simp
    qed
    with assms(3,4,5) show "workers (promise_all t) \<noteq> []
             \<and> pool_inv (length (workers (promise_all t))) (uploadedChunks_r r) (promise_all t)
             \<and> chunksToUpload (promise_all t)
                 = filter (\<lambda>i. i \<notin> set (uploadedChunks_r r))
                     [0..<totalChunks (item (promise_all t))]"
      unfolding id by simp
  qed
  have b: "pc (promise_all t) = AwaitMerge \<longrightarrow>
              mset (uploadedChunks (item (promise_all t)))
                = mset (uploadedChunks_r r)
                  + mset (filter (\<lambda>i. i \<notin> set (uploadedChunks_r r))
                            [0..<totalChunks (item (promise_all t))])"
  proof
    assume "pc (promise_all t) = AwaitMerge"
    from promise_all_pc(2) [OF this] assms(1)
    have th: "thrown (workers t) = []" and ad: "list_all (\<lambda>x. x = WDone) (workers t)"
      and na: "\<not> aborted t"
      by simp_all
    from th assms(4) have pi: "pool_inv (length (workers t)) (uploadedChunks_r r) t" by simp
    from assms(3) have l0: "0 < length (workers t)" by simp
    with ad have "workers t ! 0 = WDone" by (simp add: list_all_length)
    with pi l0 na have ix: "index t = length (chunksToUpload t)"
      by (auto simp: pool_inv_def)
    from pi ix in_progress_all_done [OF ad]
    have "mset (uploadedChunks (item t))
        = mset (uploadedChunks_r r) + mset (chunksToUpload t)"
      by (simp add: pool_inv_def)
    with assms(5) show "mset (uploadedChunks (item (promise_all t)))
                = mset (uploadedChunks_r r)
                  + mset (filter (\<lambda>i. i \<notin> set (uploadedChunks_r r))
                            [0..<totalChunks (item (promise_all t))])"
      by (simp add: promise_all_fields)
  qed
  from cr a b show ?thesis by (simp add: upload_inv_def)
qed

lemma upload_inv_settled: "pc t = Settled \<Longrightarrow> upload_inv t"
  by (cases "checkResult t") (simp_all add: upload_inv_def)

lemma upload_inv_worker_event:
  assumes "task_inv cfg t" and "upload_inv t" and "task_event cfg ev t = Some t'"
    and "ev = ChunkSettled w out \<or> ev = TimerFired w"
  shows "upload_inv t'"
proof (cases "checkResult t")
  case None
  from worker_event_shape [OF assms(3,4)] have "checkResult t' = checkResult t"
    by (auto simp: frame_def checkResult_promise_all)
  with None show ?thesis by (simp add: upload_inv_def)
next
  case (Some r)
  from worker_event_shape [OF assms(3,4)] obtain t1 where fr: "frame t t1"
    and t': "t' = promise_all t1" and w: "w < length (workers t)"
    and b: "workers t ! w \<noteq> WDone"
    by blast
  show ?thesis
  proof (cases "pc t = AwaitChunks")
    case False
    with busy_worker_pc [OF assms(1) w b] have "pc t = Settled" by simp
    with fr have "pc t1 = Settled" by (simp add: frame_def)
    then have "pc (promise_all t1) = Settled" by (simp add: promise_all_other)
    with t' show ?thesis by (simp add: upload_inv_settled)
  next
    case True
    with assms(2) Some have ne: "workers t \<noteq> []"
      and pi: "pool_inv (length (workers t)) (uploadedChunks_r r) t"
      and cs: "chunksToUpload t
          = filter (\<lambda>i. i \<notin> set (uploadedChunks_r r)) [0..<totalChunks (item t)]"
      by (simp_all add: upload_inv_def)
    have "\<exists>t1. t' = promise_all t1 \<and> frame t t1
        \<and> (thrown (workers t1) \<noteq> [] \<or> pool_inv (length (workers t)) (uploadedChunks_r r) t1)"
      using assms(4)
    proof
      assume ev: "ev = ChunkSettled w out"
      with assms(3) have ac: "after_chunk cfg w out t = Some t'"
        by (simp add: task_event_def split: if_splits)
      then obtain c i where f: "workers t ! w = WFetch c i"
        by (auto simp: after_chunk_def split: if_splits worker.splits)
      let ?t1 = "case attempt out of
              Inr r \<Rightarrow> chunk_uploaded cfg w c t
            | Inl e \<Rightarrow>
                if e = AbortError then set_worker w (WThrown e) t
                else if i < maxRetries cfg
                then set_worker w (WSleep c i e) (emit (SetTimeout (backoff_delay i)) t)
                else retry_head cfg w c (Suc i) e t"
      from ac w f have "t' = promise_all ?t1" by (simp add: after_chunk_def)
      moreover have "frame t ?t1" by (rule frame_after_chunk_inner)
      moreover from pool_inv_worker_event(1) [OF pi w f, where out = out and cfg = cfg]
      have "thrown (workers ?t1) \<noteq> [] \<or> pool_inv (length (workers t)) (uploadedChunks_r r) ?t1"
        by (simp add: Let_def)
      ultimately show ?thesis by blast
    next
      assume ev: "ev = TimerFired w"
      with assms(3) have ac: "after_sleep cfg w t = Some t'"
        by (simp add: task_event_def)
      then obtain c i e where f: "workers t ! w = WSleep c i e"
        by (auto simp: after_sleep_def split: if_splits worker.splits)
      from ac w f have "t' = promise_all (retry_head cfg w c (Suc i) e t)"
        by (simp add: after_sleep_def)
      moreover have "frame t (retry_head cfg w c (Suc i) e t)" by (rule frame_retry_head)
      moreover note pool_inv_worker_event(2) [OF pi w f, where cfg = cfg]
      ultimately show ?thesis by blast
    qed
    then obtain t2 where t2: "t' = promise_all t2" and fr2: "frame t t2"
      and ok2: "thrown (workers t2) \<noteq> [] \<or> pool_inv (length (workers t)) (uploadedChunks_r r) t2"
      by blast
    have "upload_inv (promise_all t2)"
    proof (rule upload_inv_promise_all)
      show "pc t2 = AwaitChunks" using fr2 True by (simp add: frame_def)
      show "checkResult t2 = Some r" using fr2 Some by (simp add: frame_def)
      show "workers t2 \<noteq> []" using fr2 ne by (auto simp: frame_def)
      show "thrown (workers t2) \<noteq> [] \<or> pool_inv (length (workers t2)) (uploadedChunks_r r) t2"
        using fr2 ok2 by (simp add: frame_def)
      show "chunksToUpload t2
          = filter (\<lambda>i. i \<notin> set (uploadedChunks_r r)) [0..<totalChunks (item t2)]"
        using fr2 cs by (simp add: frame_def)
    qed
    with t2 show ?thesis by simp
  qed
qed

lemma upload_inv_after_check:
  assumes "task_inv cfg t" and "pc t = AwaitCheck" and "abort_consistent t out"
    and "0 < concurrentChunks cfg"
  shows "upload_inv (after_check cfg out t)"
proof (cases "http_json out")
  case (Inl e)
  then have "pc (after_check cfg out t) = Settled"
    by (cases e) (simp_all add: after_check_def prim_defs)
  then show ?thesis by (rule upload_inv_settled)
next
  case (Inr r)
  then have "out \<noteq> Rejected AbortError" by (auto simp: http_json_def)
  with assms(3) have na: "\<not> aborted t" by (simp add: abort_consistent_def)
  show ?thesis
  proof (cases "exists_r r")
    case True
    with Inr have "pc (after_check cfg out t) = Settled"
      by (simp add: after_check_def prim_defs)
    then show ?thesis by (rule upload_inv_settled)
  next
    case False
    let ?cs = "filter (\<lambda>i. i \<notin> set (uploadedChunks_r r)) [0..<totalChunks (item t)]"
    show ?thesis
    proof (cases "?cs = []")
      case True
      with Inr False show ?thesis
        by (simp add: after_check_def Let_def upload_inv_def prim_defs)
    next
      case ne: False
      let ?t2 = "updateFileStatus (set_status Uploading
          (t\<lparr>checkResult := Some r, item := (item t)\<lparr>uploadedChunks := uploadedChunks_r r\<rparr>\<rparr>))"
      let ?t3 = "?t2\<lparr>chunksToUpload := ?cs, index := 0,
             workers := replicate (concurrentChunks cfg) WDone, pc := AwaitChunks\<rparr>"
      let ?tf = "fold (worker_loop cfg) [0..<concurrentChunks cfg] ?t3"
      have ac: "after_check cfg out t = promise_all ?tf"
        using Inr False ne
        by (simp add: after_check_def Let_def uploadChunksWithConcurrency_def prim_defs)
      have fr: "frame ?t3 ?tf" by (rule frame_fold_worker_loop)
      have "pool_inv (concurrentChunks cfg) (uploadedChunks_r r) ?tf
          \<and> (\<forall>j. concurrentChunks cfg \<le> j \<and> j < concurrentChunks cfg
                \<longrightarrow> workers ?tf ! j = WDone)"
      proof (rule pool_inv_start)
        show "workers ?t3 = replicate (concurrentChunks cfg) WDone" by simp
        show "index ?t3 = 0" by simp
        show "\<not> aborted ?t3" using na by (simp add: prim_defs)
        show "uploadedChunks (item ?t3) = uploadedChunks_r r" by (simp add: prim_defs)
        show "concurrentChunks cfg \<le> concurrentChunks cfg" by simp
      qed
      then have pi: "pool_inv (concurrentChunks cfg) (uploadedChunks_r r) ?tf" by blast
      have len: "length (workers ?tf) = concurrentChunks cfg"
        using fr by (simp add: frame_def)
      have "upload_inv (promise_all ?tf)"
      proof (rule upload_inv_promise_all)
        show "pc ?tf = AwaitChunks" using fr by (simp add: frame_def)
        show "checkResult ?tf = Some r" using fr by (simp add: frame_def prim_defs)
        show "workers ?tf \<noteq> []" using len assms(4) by auto
        show "thrown (workers ?tf) \<noteq> []
            \<or> pool_inv (length (workers ?tf)) (uploadedChunks_r r) ?tf"
          using pi len by simp
        show "chunksToUpload ?tf
            = filter (\<lambda>i. i \<notin> set (uploadedChunks_r r)) [0..<totalChunks (item ?tf)]"
          using fr by (simp add: frame_def prim_defs)
      qed
      with ac show ?thesis by simp
    qed
  qed
qed

lemma upload_inv_task_event:
  assumes "task_inv cfg t" and "upload_inv t" and "task_event cfg ev t = Some t'"
    and "0 < concurrentChunks cfg"
  shows "upload_inv t'"
proof (cases ev)
  case (MD5Settled res)
  with assms(3) have pc: "pc t = AwaitMD5" and t': "t' = after_md5 res t"
    by (simp_all add: task_event_def split: if_splits)
  with assms(1) have "checkResult t = None" by (simp add: task_inv_def)
  moreover from MD5Settled have "checkResult t' = checkResult t"
    by (intro checkResult_task_event [OF assms(3)]) simp
  ultimately show ?thesis by (simp add: upload_inv_def)
next
  case (CheckSettled out)
  with assms(3) have "pc t = AwaitCheck" and "abort_consistent t out"
    and "t' = after_check cfg out t"
    by (simp_all add: task_event_def split: if_splits)
  with assms(1,4) show ?thesis by (simp add: upload_inv_after_check)
next
  case (ChunkSettled w out)
  then have "ev = ChunkSettled w out \<or> ev = TimerFired w" by simp
  from upload_inv_worker_event [OF assms(1,2,3) this] show ?thesis .
next
  case (TimerFired w)
  then have "ev = ChunkSettled w (Rejected AbortError) \<or> ev = TimerFired w" by simp
  from upload_inv_worker_event [OF assms(1,2,3) this] show ?thesis .
next
  case (MergeSettled out)
  with assms(3) have "t' = after_merge out t"
    by (simp add: task_event_def split: if_splits)
  then have "pc t' = Settled"
    by (simp add: after_merge_def prim_defs split: sum.splits js_error.splits)
  then show ?thesis by (rule upload_inv_settled)
qed

lemma pool_inv_abort:
  assumes "pool_inv k us t" and "index t' = index t" and "chunksToUpload t' = chunksToUpload t"
    and "workers t' = workers t" and "uploadedChunks (item t') = uploadedChunks (item t)"
    and "aborted t \<longrightarrow> aborted t'"
  shows "pool_inv k us t'"
  using assms by (auto simp: pool_inv_def)

lemma upload_inv_abort:
  assumes "upload_inv t" and "index t' = index t" and "chunksToUpload t' = chunksToUpload t"
    and "workers t' = workers t" and "uploadedChunks (item t') = uploadedChunks (item t)"
    and "aborted t \<longrightarrow> aborted t'" and "pc t' = pc t" and "checkResult t' = checkResult t"
    and "totalChunks (item t') = totalChunks (item t)"
  shows "upload_inv t'"
proof (cases "checkResult t")
  case None
  with assms(8) show ?thesis by (simp add: upload_inv_def)
next
  case (Some r)
  with assms(1) have
    a: "pc t = AwaitChunks \<longrightarrow> workers t \<noteq> []
             \<and> pool_inv (length (workers t)) (uploadedChunks_r r) t
             \<and> chunksToUpload t
                 = filter (\<lambda>i. i \<notin> set (uploadedChunks_r r)) [0..<totalChunks (item t)]"
    and b: "pc t = AwaitMerge \<longrightarrow>
              mset (uploadedChunks (item t))
                = mset (uploadedChunks_r r)
                  + mset (filter (\<lambda>i. i \<notin> set (uploadedChunks_r r))
                            [0..<totalChunks (item t)])"
    by (simp_all add: upload_inv_def)
  have "pc t = AwaitChunks \<longrightarrow> pool_inv (length (workers t)) (uploadedChunks_r r) t'"
    using a assms(2-6) pool_inv_abort [of "length (workers t)" "uploadedChunks_r r" t t']
    by blast
  with a b Some assms(2-9) show ?thesis
    by (simp add: upload_inv_def)
qed

lemma upload_inv_task_step:
  assumes "task_inv cfg t" and "upload_inv t" and "task_step cfg a t = Some t'"
    and "0 < concurrentChunks cfg"
  shows "upload_inv t'"
proof (cases a)
  case Dispatch
  with assms(3) have "pc t = NotStarted" and "t' = processFile t"
    by (simp_all add: task_step_def split: if_splits)
  with assms(1) have "checkResult t' = None"
    by (simp add: task_inv_def processFile_def prim_defs)
  then show ?thesis by (simp add: upload_inv_def)
next
  case (Deliver ev)
  with assms(3) have "task_event cfg ev t = Some t'" by (simp add: task_step_def)
  from upload_inv_task_event [OF assms(1,2) this assms(4)] show ?thesis .
next
  case CancelUpload
  with assms(3) have "t' = cancel_item t" by (simp add: task_step_def)
  with assms(2) show ?thesis
    by (intro upload_inv_abort [of t t']) (simp_all add: cancel_item_def prim_defs)
next
  case Destroy
  with assms(3) have "t' = destroy_item t" by (simp add: task_step_def)
  with assms(2) show ?thesis
    by (intro upload_inv_abort [of t t']) (simp_all add: destroy_item_def)
qed

lemma upload_inv_task_run:
  assumes "0 < concurrentChunks cfg"
  shows "task_inv cfg t \<Longrightarrow> upload_inv t \<Longrightarrow> task_run cfg acts t = Some t' \<Longrightarrow> upload_inv t'"
proof (induction acts arbitrary: t)
  case Nil
  then show ?case by simp
next
  case (Cons a acts)
  from Cons.prems(3) obtain t1 where s: "task_step cfg a t = Some t1"
    and r: "task_run cfg acts t1 = Some t'"
    by (simp split: option.splits)
  from Cons.prems(1) s have "task_inv cfg t1" by (rule task_inv_task_step)
  moreover from Cons.prems(1,2) s assms have "upload_inv t1" by (rule upload_inv_task_step)
  ultimately show ?case using r by (rule Cons.IH)
qed

lemma upload_inv_new: "upload_inv (new_task cfg i f)"
  by (simp add: upload_inv_def new_task_def)

lemma make_config_positive:
  "0 < chunkSize (make_config opts)" "0 < concurrentFiles (make_config opts)"
  "0 < concurrentChunks (make_config opts)" "0 < maxRetries (make_config opts)"
  by (simp_all add: make_config_def or_default_def split: option.splits)

lemma FileUploader_conf: "FileUploader opts = Inr u \<Longrightarrow> conf u = make_config opts"
  by (auto simp: FileUploader_def split: if_splits)

text \<open>
  Claim C1. For an uploader built by the constructor and any run of a task: while the
  merge request is pending (from the moment it is issued), if the check response listed
  distinct indices below \<open>totalChunks\<close>, then the check reported \<open>exists = false\<close> and
  \<open>uploadedChunks\<close> holds exactly the indices \<open>0\<close> to \<open>totalChunks - 1\<close>, each once.
\<close>

theorem merge_issued_with_all_chunks:
  assumes "FileUploader opts = Inr u"
    and "task_run (conf u) acts (new_task (conf u) i f) = Some t"
    and "pc t = AwaitMerge"
    and "checkResult t = Some r"
    and "distinct (uploadedChunks_r r)"
    and "set (uploadedChunks_r r) \<subseteq> {0..<totalChunks (item t)}"
  shows "\<not> exists_r r \<and> distinct (uploadedChunks (item t))
    \<and> set (uploadedChunks (item t)) = {0..<totalChunks (item t)}"
proof -
  let ?cfg = "conf u"
  from assms(1) have pos: "0 < concurrentChunks ?cfg"
    by (simp add: FileUploader_conf make_config_positive)
  have ne: "\<not> exists_r r"
    using instant_inv_task_run [OF task_inv_new instant_inv_new assms(2)] assms(3,4)
    by (auto simp: instant_inv_def)
  let ?cs = "filter (\<lambda>i. i \<notin> set (uploadedChunks_r r)) [0..<totalChunks (item t)]"
  from upload_inv_task_run [OF pos task_inv_new upload_inv_new assms(2)] assms(3,4)
  have ms: "mset (uploadedChunks (item t)) = mset (uploadedChunks_r r @ ?cs)"
    by (simp add: upload_inv_def)
  have d: "distinct (uploadedChunks_r r @ ?cs)"
    using assms(5) by auto
  have s: "set (uploadedChunks_r r @ ?cs) = {0..<totalChunks (item t)}"
    using assms(6) by auto
  from ms d have "distinct (uploadedChunks (item t))"
    by (metis mset_eq_imp_distinct_iff)
  moreover from ms s have "set (uploadedChunks (item t)) = {0..<totalChunks (item t)}"
    by (metis mset_eq_setD)
  ultimately show ?thesis using ne by simp
qed

section \<open>Cancelled and failed items\<close>

text \<open>The invariant \<open>call_inv\<close> holds of every state a call reaches.\<close>

lemma list_all_update: "list_all P xs \<Longrightarrow> P x \<Longrightarrow> list_all P (xs[i := x])"
proof -
  assume a: "list_all P xs" and b: "P x"
  have "set (xs[i := x]) \<subseteq> insert x (set xs)" by (rule set_update_subset_insert)
  with a b show ?thesis by (auto simp: list_all_iff)
qed

lemma worker_ok_mono: "worker_ok cfg ab x \<Longrightarrow> worker_ok cfg True x"
  by (simp add: worker_ok_def split: worker.splits)

lemma workers_ok_abort: "workers_ok cfg t \<Longrightarrow> workers_ok cfg (t\<lparr>aborted := True, registered := b\<rparr>)"
  by (auto simp: workers_ok_def list_all_iff intro: worker_ok_mono)

lemma workers_ok_set_worker:
  "workers_ok cfg t \<Longrightarrow> worker_ok cfg (aborted t) x \<Longrightarrow> workers_ok cfg (set_worker w x t)"
  by (simp add: workers_ok_def set_worker_def list_all_update)

lemma workers_ok_emit: "workers_ok cfg (emit e t) = workers_ok cfg t"
  by (simp add: workers_ok_def emit_def)

lemma workers_ok_retry_head:
  assumes "workers_ok cfg t" and "maxRetries cfg < i \<longrightarrow> e \<noteq> AbortError"
  shows "workers_ok cfg (retry_head cfg w c i e t)"
proof (cases "maxRetries cfg < i")
  case True
  with assms(2) have "worker_ok cfg (aborted t) (WThrown e)" by (simp add: worker_ok_def)
  with assms(1) have "workers_ok cfg (set_worker w (WThrown e) t)"
    by (rule workers_ok_set_worker)
  with True show ?thesis by (simp add: retry_head_def)
next
  case False
  show ?thesis
  proof (cases "aborted t")
    case True
    then have "worker_ok cfg (aborted t) (WThrown AbortError)" by (simp add: worker_ok_def)
    with assms(1) have "workers_ok cfg (set_worker w (WThrown AbortError) t)"
      by (rule workers_ok_set_worker)
    with True False show ?thesis by (simp add: retry_head_def)
  next
    case na: False
    let ?t1 = "emit (FetchChunk (formData cfg t c)) t"
    from assms(1) have "workers_ok cfg ?t1" by (simp add: workers_ok_emit)
    moreover have "worker_ok cfg (aborted ?t1) (WFetch c i)" by (simp add: worker_ok_def)
    ultimately have "workers_ok cfg (set_worker w (WFetch c i) ?t1)"
      by (rule workers_ok_set_worker)
    with na False show ?thesis by (simp add: retry_head_def)
  qed
qed

lemma workers_ok_uploadChunk: "workers_ok cfg t \<Longrightarrow> workers_ok cfg (uploadChunk cfg w c t)"
proof (cases "aborted t")
  case True
  assume a: "workers_ok cfg t"
  from True have "worker_ok cfg (aborted t) (WThrown AbortError)" by (simp add: worker_ok_def)
  with a have "workers_ok cfg (set_worker w (WThrown AbortError) t)"
    by (rule workers_ok_set_worker)
  with True show ?thesis by (simp add: uploadChunk_def)
next
  case False
  assume a: "workers_ok cfg t"
  then have "workers_ok cfg (retry_head cfg w c 0 AbortError t)"
    by (rule workers_ok_retry_head) simp
  with False show ?thesis by (simp add: uploadChunk_def)
qed

lemma workers_ok_worker_loop: "workers_ok cfg t \<Longrightarrow> workers_ok cfg (worker_loop cfg w t)"
proof -
  assume a: "workers_ok cfg t"
  then have "workers_ok cfg (t\<lparr>index := Suc (index t)\<rparr>)" by (simp add: workers_ok_def)
  then have "workers_ok cfg (uploadChunk cfg w (chunksToUpload t ! index t) (t\<lparr>index := Suc (index t)\<rparr>))"
    by (rule workers_ok_uploadChunk)
  moreover have "worker_ok cfg (aborted t) WDone" by (simp add: worker_ok_def)
  with a have "workers_ok cfg (set_worker w WDone t)" by (rule workers_ok_set_worker)
  ultimately show ?thesis by (simp add: worker_loop_def)
qed

lemma workers_ok_chunk_uploaded: "workers_ok cfg t \<Longrightarrow> workers_ok cfg (chunk_uploaded cfg w c t)"
proof -
  assume a: "workers_ok cfg t"
  let ?t1 = "updateFileStatus (t\<lparr>item := (item t)\<lparr>uploadedChunks := uploadedChunks (item t) @ [c],
      progress := round_percent (length (uploadedChunks (item t) @ [c])) (totalChunks (item t))\<rparr>\<rparr>)"
  from a have "workers_ok cfg ?t1" by (simp add: workers_ok_def prim_defs)
  then have "workers_ok cfg (worker_loop cfg w ?t1)" by (rule workers_ok_worker_loop)
  then show ?thesis by (simp add: chunk_uploaded_def Let_def)
qed

lemma call_core_frame:
  assumes "call_core cfg t" and "frame t t'" and "workers_ok cfg t'"
  shows "call_core cfg t'"
proof -
  from assms(2) have "length (workers t') = length (workers t)" by (simp add: frame_def)
  then have "(workers t' = []) = (workers t = [])" by (metis length_0_conv)
  with assms show ?thesis by (simp add: call_core_def frame_def)
qed

lemma call_core_worker_loop: "call_core cfg t \<Longrightarrow> call_core cfg (worker_loop cfg w t)"
proof -
  assume a: "call_core cfg t"
  then have "workers_ok cfg t" by (simp add: call_core_def)
  then have "workers_ok cfg (worker_loop cfg w t)" by (rule workers_ok_worker_loop)
  with a frame_worker_loop show ?thesis by (rule call_core_frame)
qed

lemma call_core_fold_worker_loop:
  "call_core cfg t \<Longrightarrow> call_core cfg (fold (worker_loop cfg) ws t)"
proof (induction ws arbitrary: t)
  case Nil
  then show ?case by simp
next
  case (Cons w ws)
  from Cons.prems have "call_core cfg (worker_loop cfg w t)" by (rule call_core_worker_loop)
  from Cons.IH [OF this] show ?case by simp
qed

lemma set_thrown: "set (thrown ws) = {e. WThrown e \<in> set ws}"
  by (induction ws) (auto simp: thrown_def split: worker.splits)

lemma call_inv_catch_clause:
  assumes "call_core cfg t" and "e = AbortError \<longrightarrow> aborted t \<or> workers t = []"
  shows "call_inv cfg (catch_clause e t)"
  using assms
  by (cases e) (simp_all add: call_inv_def call_core_def workers_ok_def prim_defs)

lemma call_inv_promise_all:
  assumes "call_core cfg t"
  shows "call_inv cfg (promise_all t)"
proof (cases "pc t = AwaitChunks")
  case False
  with assms show ?thesis by (simp add: promise_all_other call_inv_def)
next
  case True
  show ?thesis
  proof (cases "thrown (workers t)")
    case (Cons e es)
    then have "e \<in> set (thrown (workers t))" by simp
    then have "WThrown e \<in> set (workers t)" by (simp add: set_thrown)
    with assms have "worker_ok cfg (aborted t) (WThrown e)"
      by (simp add: call_core_def workers_ok_def list_all_iff)
    then have "e = AbortError \<longrightarrow> aborted t \<or> workers t = []" by (simp add: worker_ok_def)
    with assms have "call_inv cfg (catch_clause e t)" by (rule call_inv_catch_clause)
    with True Cons show ?thesis by (simp add: promise_all_def)
  next
    case Nil
    show ?thesis
    proof (cases "list_all (\<lambda>x. x = WDone) (workers t)")
      case False
      with True Nil assms show ?thesis by (simp add: promise_all_def call_inv_def)
    next
      case ad: True
      show ?thesis
      proof (cases "aborted t")
        case True
        with assms have "call_inv cfg (catch_clause AbortError t)"
          by (simp add: call_inv_catch_clause)
        with \<open>pc t = AwaitChunks\<close> Nil ad True show ?thesis by (simp add: promise_all_def)
      next
        case False
        have "call_inv cfg (call_mergeFile (updateFileStatus (set_status Merging t)))"
          using assms by (simp add: call_inv_def call_core_def workers_ok_def prim_defs)
        with \<open>pc t = AwaitChunks\<close> Nil ad False show ?thesis by (simp add: promise_all_def)
      qed
    qed
  qed
qed

lemma call_inv_core: "call_inv cfg t \<Longrightarrow> call_core cfg t"
  by (simp add: call_inv_def)

lemma call_inv_new: "call_inv cfg (new_task cfg i f)"
  by (simp add: call_inv_def call_core_def workers_ok_def new_task_def new_item_def)

lemma call_inv_processFile:
  assumes "task_inv cfg t" and "call_inv cfg t" and "pc t = NotStarted"
  shows "call_inv cfg (processFile t)"
proof -
  from assms(1,3) have "workers t = []" by (simp add: task_inv_def)
  then show ?thesis
    by (simp add: call_inv_def call_core_def workers_ok_def processFile_def prim_defs)
qed

lemma status_Pending_workers:
  assumes "task_inv cfg t" and "status (item t) = Pending"
  shows "workers t = []"
  using assms by (cases "pc t") (simp_all add: task_inv_def live_def terminal_def)

lemma live_unregistered_aborted:
  assumes "task_inv cfg t" and "\<not> terminal (status (item t))" and "status (item t) \<noteq> Pending"
    and "\<not> registered t"
  shows "aborted t"
  using assms by (cases "pc t") (auto simp: task_inv_def live_def terminal_def)

lemma call_inv_cancel_item:
  assumes "task_inv cfg t" and "call_inv cfg t"
  shows "call_inv cfg (cancel_item t)"
proof (cases "status (item t) = Pending")
  case True
  with assms(1) have "workers t = []" by (rule status_Pending_workers)
  with True assms(2) show ?thesis
    by (simp add: cancel_item_def call_inv_def call_core_def workers_ok_def prim_defs)
next
  case np: False
  show ?thesis
  proof (cases "status (item t) = Checking \<or> status (item t) = Uploading
                \<or> status (item t) = Merging")
    case False
    with np show ?thesis using assms(2) by (simp add: cancel_item_def)
  next
    case True
    then have nt: "\<not> terminal (status (item t))" by (auto simp: terminal_def)
    show ?thesis
    proof (cases "registered t")
      case True
      from assms(2) have "workers_ok cfg t" by (simp add: call_inv_def call_core_def)
      then have "workers_ok cfg (t\<lparr>aborted := True, registered := False\<rparr>)"
        by (rule workers_ok_abort)
      then have "workers_ok cfg (updateFileStatus (set_status Cancelled
             (t\<lparr>aborted := True, registered := False\<rparr>)))"
        by (simp add: workers_ok_def prim_defs)
      with assms(2) have "call_inv cfg (updateFileStatus (set_status Cancelled
             (t\<lparr>aborted := True, registered := False\<rparr>)))"
        by (simp add: call_inv_def call_core_def prim_defs)
      with True np \<open>status (item t) = Checking \<or> status (item t) = Uploading
                \<or> status (item t) = Merging\<close> show ?thesis
        by (simp add: cancel_item_def)
    next
      case False
      from live_unregistered_aborted [OF assms(1) nt np False] have a: "aborted t" .
      from assms(2) a have "call_inv cfg (updateFileStatus (set_status Cancelled t))"
        by (simp add: call_inv_def call_core_def workers_ok_def prim_defs)
      with False np \<open>status (item t) = Checking \<or> status (item t) = Uploading
                \<or> status (item t) = Merging\<close> show ?thesis
        by (simp add: cancel_item_def)
    qed
  qed
qed

lemma call_inv_destroy_item:
  assumes "call_inv cfg t"
  shows "call_inv cfg (destroy_item t)"
proof (cases "registered t")
  case False
  with assms show ?thesis by (simp add: destroy_item_def)
next
  case True
  from assms have "workers_ok cfg t" by (simp add: call_inv_def call_core_def)
  then have "workers_ok cfg (t\<lparr>aborted := True, registered := False\<rparr>)"
    by (rule workers_ok_abort)
  with assms True show ?thesis
    by (simp add: destroy_item_def call_inv_def call_core_def)
qed

lemma call_inv_after_md5:
  assumes "task_inv cfg t" and "call_inv cfg t" and "pc t = AwaitMD5"
  shows "call_inv cfg (after_md5 res t)"
proof -
  from assms(1,3) have w: "workers t = []" by (simp add: task_inv_def)
  show ?thesis
  proof (cases res)
    case (Inl e)
    from assms(2) w have "call_inv cfg (catch_clause e t)"
      by (simp add: call_inv_catch_clause call_inv_core)
    with Inl show ?thesis by (simp add: after_md5_def)
  next
    case (Inr d)
    with assms(2,3) w show ?thesis
      by (auto simp: after_md5_def Let_def call_inv_def call_core_def workers_ok_def emit_def)
  qed
qed

lemma http_json_abort:
  "http_json out = Inl AbortError \<Longrightarrow> out = Rejected AbortError"
  by (cases out) (simp_all add: http_json_def http_error_def split: if_splits)

lemma attempt_abort:
  "attempt out = Inl AbortError \<Longrightarrow> out = Rejected AbortError"
  by (cases out) (simp_all add: attempt_def http_error_def split: if_splits)

lemma call_inv_after_merge:
  assumes "task_inv cfg t" and "call_inv cfg t" and "pc t = AwaitMerge"
    and "abort_consistent t out"
  shows "call_inv cfg (after_merge out t)"
proof (cases "http_json out")
  case (Inl e)
  have "e = AbortError \<longrightarrow> aborted t \<or> workers t = []"
  proof
    assume "e = AbortError"
    with Inl have "out = Rejected AbortError" by (simp add: http_json_abort)
    with assms(4) show "aborted t \<or> workers t = []" by (simp add: abort_consistent_def)
  qed
  with assms(2) have "call_inv cfg (catch_clause e t)"
    by (simp add: call_inv_catch_clause call_inv_core)
  with Inl show ?thesis by (simp add: after_merge_def)
next
  case (Inr r)
  from assms(2) have "call_inv cfg (succeed t)"
    by (simp add: call_inv_def call_core_def workers_ok_def prim_defs)
  with Inr show ?thesis by (simp add: after_merge_def)
qed

lemma call_inv_after_check:
  assumes "task_inv cfg t" and "call_inv cfg t" and "pc t = AwaitCheck"
    and "abort_consistent t out"
  shows "call_inv cfg (after_check cfg out t)"
proof (cases "http_json out")
  case (Inl e)
  have "e = AbortError \<longrightarrow> aborted t \<or> workers t = []"
  proof
    assume "e = AbortError"
    with Inl have "out = Rejected AbortError" by (simp add: http_json_abort)
    with assms(4) show "aborted t \<or> workers t = []" by (simp add: abort_consistent_def)
  qed
  with assms(2) have "call_inv cfg (catch_clause e t)"
    by (simp add: call_inv_catch_clause call_inv_core)
  with Inl show ?thesis by (simp add: after_check_def)
next
  case (Inr r)
  from assms(1,3) have w: "workers t = []" by (simp add: task_inv_def)
  from assms(2,3) have nm: "status (item t) \<noteq> Merging" by (auto simp: call_inv_def call_core_def)
  show ?thesis
  proof (cases "exists_r r")
    case True
    from assms(2) have "call_inv cfg (succeed (t\<lparr>checkResult := Some r\<rparr>))"
      by (simp add: call_inv_def call_core_def workers_ok_def prim_defs)
    with Inr True show ?thesis by (simp add: after_check_def)
  next
    case False
    show ?thesis
    proof (cases "filter (\<lambda>i. i \<notin> set (uploadedChunks_r r)) [0..<totalChunks (item t)] = []")
      case True
      from assms(2) w have "call_inv cfg (call_mergeFile (t\<lparr>checkResult := Some r,
          item := (item t)\<lparr>uploadedChunks := uploadedChunks_r r\<rparr>\<rparr>))"
        by (simp add: call_inv_def call_core_def workers_ok_def prim_defs)
      with Inr False True show ?thesis by (simp add: after_check_def Let_def)
    next
      case ne: False
      then have tc: "0 < totalChunks (item t)" by (cases "totalChunks (item t)") simp_all
      let ?cs = "filter (\<lambda>i. i \<notin> set (uploadedChunks_r r)) [0..<totalChunks (item t)]"
      let ?t2 = "(updateFileStatus (set_status Uploading (t\<lparr>checkResult := Some r,
               item := (item t)\<lparr>uploadedChunks := uploadedChunks_r r\<rparr>\<rparr>)))
          \<lparr>chunksToUpload := ?cs, index := 0,
            workers := replicate (concurrentChunks cfg) WDone, pc := AwaitChunks\<rparr>"
      from tc have "call_core cfg ?t2"
        by (simp add: call_core_def workers_ok_def prim_defs list_all_iff worker_ok_def)
      then have "call_core cfg (fold (worker_loop cfg) [0..<concurrentChunks cfg] ?t2)"
        by (rule call_core_fold_worker_loop)
      then have "call_inv cfg (promise_all (fold (worker_loop cfg) [0..<concurrentChunks cfg] ?t2))"
        by (rule call_inv_promise_all)
      with Inr False ne show ?thesis
        by (simp add: after_check_def Let_def uploadChunksWithConcurrency_def prim_defs)
    qed
  qed
qed

lemma workers_ok_nth:
  "workers_ok cfg t \<Longrightarrow> w < length (workers t) \<Longrightarrow> worker_ok cfg (aborted t) (workers t ! w)"
  by (simp add: workers_ok_def list_all_length)

lemma call_inv_after_chunk:
  assumes "call_inv cfg t" and "after_chunk cfg w out t = Some t'"
    and "abort_consistent t out"
  shows "call_inv cfg t'"
proof -
  from assms(2) obtain c i where w: "w < length (workers t)" and f: "workers t ! w = WFetch c i"
    by (auto simp: after_chunk_def split: if_splits worker.splits)
  from assms(1) have core: "call_core cfg t" and wo: "workers_ok cfg t"
    by (simp_all add: call_inv_def call_core_def)
  define t1 where "t1 = (case attempt out of
                  Inr r \<Rightarrow> chunk_uploaded cfg w c t
                | Inl e \<Rightarrow>
                    if e = AbortError then set_worker w (WThrown e) t
                    else if i < maxRetries cfg
                    then set_worker w (WSleep c i e)
                           (emit (SetTimeout (backoff_delay i)) t)
                    else retry_head cfg w c (Suc i) e t)"
  have fr: "frame t t1"
    unfolding t1_def by (rule frame_after_chunk_inner)
  have "workers_ok cfg t1"
  proof (cases "attempt out")
    case (Inr r)
    with wo show ?thesis by (simp add: t1_def workers_ok_chunk_uploaded)
  next
    case (Inl e)
    show ?thesis
    proof (cases "e = AbortError")
      case True
      with Inl have "out = Rejected AbortError" by (simp add: attempt_abort)
      with assms(3) have "aborted t" by (simp add: abort_consistent_def)
      then have "worker_ok cfg (aborted t) (WThrown AbortError)" by (simp add: worker_ok_def)
      with wo have "workers_ok cfg (set_worker w (WThrown AbortError) t)"
        by (rule workers_ok_set_worker)
      with Inl True show ?thesis by (simp add: t1_def)
    next
      case False
      show ?thesis
      proof (cases "i < maxRetries cfg")
        case True
        let ?t0 = "emit (SetTimeout (backoff_delay i)) t"
        from wo have "workers_ok cfg ?t0" by (simp add: workers_ok_emit)
        moreover from True False have "worker_ok cfg (aborted ?t0) (WSleep c i e)"
          by (simp add: worker_ok_def)
        ultimately have "workers_ok cfg (set_worker w (WSleep c i e) ?t0)"
          by (rule workers_ok_set_worker)
        with Inl False True show ?thesis by (simp add: t1_def)
      next
        case nr: False
        from wo False have "workers_ok cfg (retry_head cfg w c (Suc i) e t)"
          by (simp add: workers_ok_retry_head)
        with Inl False nr show ?thesis by (simp add: t1_def)
      qed
    qed
  qed
  with core fr have "call_core cfg t1" by (rule call_core_frame)
  then have "call_inv cfg (promise_all t1)" by (rule call_inv_promise_all)
  moreover from assms(2) w f have "t' = promise_all t1"
    by (simp add: after_chunk_def t1_def)
  ultimately show ?thesis by simp
qed

lemma call_inv_after_sleep:
  assumes "call_inv cfg t" and "after_sleep cfg w t = Some t'"
  shows "call_inv cfg t'"
proof -
  from assms(2) obtain c i e where w: "w < length (workers t)"
    and f: "workers t ! w = WSleep c i e"
    by (auto simp: after_sleep_def split: if_splits worker.splits)
  from assms(1) have core: "call_core cfg t" and wo: "workers_ok cfg t"
    by (simp_all add: call_inv_def call_core_def)
  from workers_ok_nth [OF wo w] f have "e \<noteq> AbortError" by (simp add: worker_ok_def)
  with wo have "workers_ok cfg (retry_head cfg w c (Suc i) e t)"
    by (simp add: workers_ok_retry_head)
  with core frame_retry_head have "call_core cfg (retry_head cfg w c (Suc i) e t)"
    by (rule call_core_frame)
  then have "call_inv cfg (promise_all (retry_head cfg w c (Suc i) e t))"
    by (rule call_inv_promise_all)
  moreover from assms(2) w f have "t' = promise_all (retry_head cfg w c (Suc i) e t)"
    by (simp add: after_sleep_def)
  ultimately show ?thesis by simp
qed

lemma call_inv_task_event:
  assumes "task_inv cfg t" and "call_inv cfg t" and "task_event cfg ev t = Some t'"
  shows "call_inv cfg t'"
proof (cases ev)
  case (MD5Settled res)
  with assms(3) have "pc t = AwaitMD5" and "t' = after_md5 res t"
    by (simp_all add: task_event_def split: if_splits)
  with assms(1,2) show ?thesis by (simp add: call_inv_after_md5)
next
  case (CheckSettled out)
  with assms(3) have "pc t = AwaitCheck" and "abort_consistent t out"
    and "t' = after_check cfg out t"
    by (simp_all add: task_event_def split: if_splits)
  with assms(1,2) show ?thesis by (simp add: call_inv_after_check)
next
  case (ChunkSettled w out)
  with assms(3) have "after_chunk cfg w out t = Some t'" and "abort_consistent t out"
    by (simp_all add: task_event_def split: if_splits)
  with assms(2) show ?thesis by (simp add: call_inv_after_chunk)
next
  case (TimerFired w)
  with assms(3) have "after_sleep cfg w t = Some t'"
    by (simp add: task_event_def)
  with assms(2) show ?thesis by (rule call_inv_after_sleep)
next
  case (MergeSettled out)
  with assms(3) have "pc t = AwaitMerge" and "abort_consistent t out"
    and "t' = after_merge out t"
    by (simp_all add: task_event_def split: if_splits)
  with assms(1,2) show ?thesis by (simp add: call_inv_after_merge)
qed

lemma call_inv_task_step:
  assumes "task_inv cfg t" and "call_inv cfg t" and "task_step cfg a t = Some t'"
  shows "call_inv cfg t'"
proof (cases a)
  case Dispatch
  with assms(3) have "pc t = NotStarted" and "t' = processFile t"
    by (simp_all add: task_step_def split: if_splits)
  with assms(1,2) show ?thesis by (simp add: call_inv_processFile)
next
  case (Deliver ev)
  with assms(3) have "task_event cfg ev t = Some t'" by (simp add: task_step_def)
  with assms(1,2) show ?thesis by (rule call_inv_task_event)
next
  case CancelUpload
  with assms(3) have "t' = cancel_item t" by (simp add: task_step_def)
  with assms(1,2) show ?thesis by (simp add: call_inv_cancel_item)
next
  case Destroy
  with assms(3) have "t' = destroy_item t" by (simp add: task_step_def)
  with assms(2) show ?thesis by (simp add: call_inv_destroy_item)
qed

lemma call_inv_task_run:
  "task_inv cfg t \<Longrightarrow> call_inv cfg t \<Longrightarrow> task_run cfg as t = Some t' \<Longrightarrow> call_inv cfg t'"
proof (induction as arbitrary: t)
  case Nil
  then show ?case by simp
next
  case (Cons a as)
  from Cons.prems(3) obtain t1 where s: "task_step cfg a t = Some t1"
    and r: "task_run cfg as t1 = Some t'"
    by (simp split: option.splits)
  from Cons.prems(1) s have "task_inv cfg t1" by (rule task_inv_task_step)
  moreover from Cons.prems(1,2) s have "call_inv cfg t1" by (rule call_inv_task_step)
  ultimately show ?case using r by (rule Cons.IH)
qed

lemma task_reachable_call_inv:
  assumes "task_reachable cfg t"
  shows "call_inv cfg t"
proof -
  from assms obtain i f as where "task_run cfg as (new_task cfg i f) = Some t"
    unfolding task_reachable_def by blast
  with task_inv_new [of cfg i f] call_inv_new [of cfg i f] show ?thesis
    by (rule call_inv_task_run)
qed

text \<open>
  The progress is computed from a positive number of chunks: a worker that awaits an
  upload belongs to a file that has chunks.
\<close>

lemma busy_worker_totalChunks:
  assumes "task_reachable cfg t" and "w < length (workers t)"
  shows "0 < totalChunks (item t)"
proof -
  from assms(1) have "call_inv cfg t" by (rule task_reachable_call_inv)
  with assms(2) show ?thesis by (auto simp: call_inv_def call_core_def)
qed






lemma worker_code_retry_head: "worker_code t (retry_head cfg w c i e t)"
  by (simp add: worker_code_def frame_retry_head)
     (simp add: same_file_def merge_requests_def retry_head_def prim_defs)

lemma worker_code_set_worker: "worker_code t (set_worker w x t)"
  by (simp add: worker_code_def frame_set_worker)
     (simp add: same_file_def merge_requests_def prim_defs)

lemma worker_code_sleep: "worker_code t (set_worker w x (emit (SetTimeout d) t))"
  by (simp add: worker_code_def frame_sleep)
     (simp add: same_file_def merge_requests_def prim_defs)


lemma worker_code_chunk_uploaded: "worker_code t (chunk_uploaded cfg w c t)"
  by (simp add: worker_code_def frame_chunk_uploaded)
     (simp add: same_file_def merge_requests_def chunk_uploaded_def worker_loop_def
        uploadChunk_def retry_head_def prim_defs Let_def)


lemma worker_code_after_chunk_inner:
  "worker_code t (case attempt out of
              Inr r \<Rightarrow> chunk_uploaded cfg w c t
            | Inl e \<Rightarrow>
                if e = AbortError then set_worker w (WThrown e) t
                else if i < maxRetries cfg
                then set_worker w (WSleep c i e) (emit (SetTimeout (backoff_delay i)) t)
                else retry_head cfg w c (Suc i) e t)"
  by (simp add: worker_code_chunk_uploaded worker_code_set_worker worker_code_sleep
        worker_code_retry_head split: sum.splits)

lemma worker_event_code:
  assumes "task_event cfg ev t = Some t'" and "ev = ChunkSettled w out \<or> ev = TimerFired w"
  shows "\<exists>t1. worker_code t t1 \<and> t' = promise_all t1 \<and> w < length (workers t)
           \<and> workers t ! w \<noteq> WDone"
proof -
  from assms(2) show ?thesis
  proof
    assume ev: "ev = ChunkSettled w out"
    with assms(1) have ac: "after_chunk cfg w out t = Some t'"
      by (simp add: task_event_def split: if_splits)
    then obtain c i where w: "w < length (workers t)" and f: "workers t ! w = WFetch c i"
      by (auto simp: after_chunk_def split: if_splits worker.splits)
    let ?t1 = "case attempt out of
              Inr r \<Rightarrow> chunk_uploaded cfg w c t
            | Inl e \<Rightarrow>
                if e = AbortError then set_worker w (WThrown e) t
                else if i < maxRetries cfg
                then set_worker w (WSleep c i e) (emit (SetTimeout (backoff_delay i)) t)
                else retry_head cfg w c (Suc i) e t"
    from ac w f have "t' = promise_all ?t1"
      by (simp add: after_chunk_def)
    moreover have "worker_code t ?t1" by (rule worker_code_after_chunk_inner)
    ultimately show ?thesis using w f
      by (intro exI [of _ ?t1]) simp
  next
    assume ev: "ev = TimerFired w"
    with assms(1) have ac: "after_sleep cfg w t = Some t'"
      by (simp add: task_event_def)
    then obtain c i e where w: "w < length (workers t)" and f: "workers t ! w = WSleep c i e"
      by (auto simp: after_sleep_def split: if_splits worker.splits)
    with ac have "t' = promise_all (retry_head cfg w c (Suc i) e t)"
      by (simp add: after_sleep_def)
    moreover have "worker_code t (retry_head cfg w c (Suc i) e t)" by (rule worker_code_retry_head)
    ultimately show ?thesis using w f
      by (intro exI [of _ "retry_head cfg w c (Suc i) e t"]) simp
  qed
qed












text \<open>What an event can do to an item in \<open>error\<close>: only a worker is still there.\<close>

lemma error_task_event:
  assumes "task_inv cfg t" and "task_event cfg ev t = Some t'"
    and "status (item t) = Error"
  shows "status (item t') = Error \<and> error (item t') = error (item t)
    \<and> md5 (item t') = md5 (item t) \<and> pc t' = Settled
    \<and> take (length (uploadedChunks (item t))) (uploadedChunks (item t')) = uploadedChunks (item t)
    \<and> merge_requests (effects t') = merge_requests (effects t)"
proof -
  from assms(1,3) have pc: "pc t = Settled"
    by (cases "pc t") (simp_all add: task_inv_def live_def terminal_def)
  have "\<exists>w out. ev = ChunkSettled w out \<or> ev = TimerFired w"
  proof (cases ev)
    case (MD5Settled res)
    with assms(2) pc show ?thesis by (simp add: task_event_def)
  next
    case (CheckSettled out)
    with assms(2) pc show ?thesis by (simp add: task_event_def)
  next
    case (MergeSettled out)
    with assms(2) pc show ?thesis by (simp add: task_event_def)
  next
    case (ChunkSettled w out)
    then show ?thesis by blast
  next
    case (TimerFired w)
    then show ?thesis by blast
  qed
  then obtain w out where "ev = ChunkSettled w out \<or> ev = TimerFired w" by blast
  from worker_event_code [OF assms(2) this] obtain t1 where wc: "worker_code t t1"
    and t': "t' = promise_all t1" by blast
  from wc pc have "pc t1 \<noteq> AwaitChunks" by (simp add: worker_code_def frame_def)
  then have "promise_all t1 = t1" by (rule promise_all_other)
  with t' wc assms(3) pc show ?thesis by (simp add: worker_code_def frame_def)
qed







text \<open>A task in \<open>error\<close> stays so, with its message, and no merge is requested for it.\<close>

lemma error_task_step:
  assumes "task_inv cfg t" and "status (item t) = Error" and "task_step cfg a t = Some t'"
  shows "status (item t') = Error \<and> error (item t') = error (item t)
    \<and> merge_requests (effects t') = merge_requests (effects t)"
proof (cases a)
  case Dispatch
  with assms(3) have "status (item t) = Pending"
    by (simp add: task_step_def split: if_splits)
  with assms(2) show ?thesis by simp
next
  case CancelUpload
  from assms(2) have "terminal (status (item t))" by (simp add: terminal_def)
  with CancelUpload assms(3) have "t' = t" by (simp add: task_step_def cancel_item_terminal)
  with assms(2) show ?thesis by simp
next
  case Destroy
  with assms(3) have "item t' = item t" and "effects t' = effects t"
    by (auto simp: task_step_def destroy_item_item)
  with assms(2) show ?thesis by simp
next
  case (Deliver ev)
  with assms(3) have "task_event cfg ev t = Some t'" by (simp add: task_step_def)
  from error_task_event [OF assms(1) this assms(2)] show ?thesis by simp
qed

lemma error_task_run:
  "task_inv cfg t \<Longrightarrow> status (item t) = Error \<Longrightarrow> task_run cfg acts t = Some t'
   \<Longrightarrow> status (item t') = Error \<and> error (item t') = error (item t)
     \<and> merge_requests (effects t') = merge_requests (effects t)"
proof (induction acts arbitrary: t)
  case Nil
  then show ?case by simp
next
  case (Cons a acts)
  from Cons.prems(3) obtain t1 where s: "task_step cfg a t = Some t1"
    and r: "task_run cfg acts t1 = Some t'"
    by (simp split: option.splits)
  from Cons.prems(1) s have i1: "task_inv cfg t1" by (rule task_inv_task_step)
  from error_task_step [OF Cons.prems(1,2) s]
  have e1: "status (item t1) = Error" and k: "error (item t1) = error (item t)"
    "merge_requests (effects t1) = merge_requests (effects t)" by simp_all
  from Cons.IH [OF i1 e1 r] k show ?case by simp
qed

text \<open>
  A task in the status \<open>merging\<close> awaits the answer to its merge request. (So does a task
  still in \<open>checking\<close> for which the check reported every chunk as stored.)
\<close>

lemma merging_awaits_merge:
  assumes "task_reachable cfg t" and "status (item t) = Merging"
  shows "pc t = AwaitMerge"
proof -
  from assms(1) have "call_inv cfg t" by (rule task_reachable_call_inv)
  with assms(2) show ?thesis by (simp add: call_inv_def call_core_def)
qed

text \<open>
  Claim C7. A task is in the status \<open>merging\<close>, or otherwise awaits the answer to its
  merge request, and the merge call fails with an error that is not an abort: the
  response has a status that is not \<open>ok\<close> (the reference server answers 400 for a missing
  chunk), or the request fails. Then the answer is delivered to the task, which becomes
  \<open>error\<close> with the message of that failure (\<open>HTTP error! status: N\<close> for a response) and is
  settled with nothing but the notification emitted; and whatever happens afterwards, it
  stays in \<open>error\<close> with that message and no further merge is requested.
\<close>

theorem rejected_merge_is_error_not_retried:
  assumes "task_run cfg acts (new_task cfg i f) = Some t"
    and "status (item t) = Merging \<or> pc t = AwaitMerge"
    and "abort_consistent t out"
    and "http_json out = Inl (Err m)"
    and "task_run cfg acts' (after_merge out t) = Some t'"
  shows "task_step cfg (Deliver (MergeSettled out)) t = Some (after_merge out t)
    \<and> item (after_merge out t) = (item t)\<lparr>status := Error, error := Some m\<rparr>
    \<and> effects (after_merge out t) = effects t @ [Notify (item (after_merge out t))]
    \<and> pc (after_merge out t) = Settled
    \<and> (\<forall>st b. out = Response st b \<longrightarrow> m = ''HTTP error! status: '' @ string_of_nat st)
    \<and> status (item t') = Error \<and> error (item t') = Some m
    \<and> merge_requests (effects t') = merge_requests (effects t)"
proof -
  from assms(1) have re: "task_reachable cfg t" unfolding task_reachable_def by blast
  then have inv: "task_inv cfg t" by (rule task_reachable_inv)
  from assms(2) re have pc: "pc t = AwaitMerge" using merging_awaits_merge by blast
  with assms(3) have st: "task_step cfg (Deliver (MergeSettled out)) t = Some (after_merge out t)"
    by (simp add: task_step_def task_event_def)
  from assms(4) have am: "after_merge out t = catch_clause (Err m) t"
    by (simp add: after_merge_def)
  have it: "item (after_merge out t) = (item t)\<lparr>status := Error, error := Some m\<rparr>"
    and ef: "effects (after_merge out t) = effects t @ [Notify (item (after_merge out t))]"
    and p': "pc (after_merge out t) = Settled"
    unfolding am by (simp_all add: prim_defs)
  have ms: "\<forall>st b. out = Response st b \<longrightarrow> m = ''HTTP error! status: '' @ string_of_nat st"
    using assms(4) by (auto simp: http_json_def http_error_def split: if_splits)
  from inv st have inv': "task_inv cfg (after_merge out t)" by (rule task_inv_task_step)
  from it have er: "status (item (after_merge out t)) = Error" by simp
  from error_task_run [OF inv' er assms(5)] it ef
  have "status (item t') = Error \<and> error (item t') = Some m
    \<and> merge_requests (effects t') = merge_requests (effects t)"
    by (simp add: merge_requests_def)
  with st it ef p' ms show ?thesis by simp
qed

section \<open>Orchestrator\<close>

lemma length_filter_update:
  "r < length xs \<Longrightarrow>
     length (filter P (xs[r := y])) + (if P (xs ! r) then 1 else 0)
       = length (filter P xs) + (if P y then 1 else 0)"
proof (induction xs arbitrary: r)
  case Nil then show ?case by simp
next
  case (Cons x xs)
  then show ?case by (cases r) auto
qed

lemma task_run_append:
  "task_run cfg (xs @ ys) t
     = (case task_run cfg xs t of None \<Rightarrow> None | Some t1 \<Rightarrow> task_run cfg ys t1)"
  by (induction xs arbitrary: t) (simp_all split: option.splits)

lemma task_reachable_new: "task_reachable cfg (new_task cfg i f)"
  unfolding task_reachable_def by (intro exI [of _ i] exI [of _ f] exI [of _ "[]"]) simp

lemma task_reachable_step:
  assumes "task_reachable cfg t" and "task_step cfg a t = Some t'"
  shows "task_reachable cfg t'"
proof -
  from assms(1) obtain i f acts where "task_run cfg acts (new_task cfg i f) = Some t"
    unfolding task_reachable_def by blast
  with assms(2) have "task_run cfg (acts @ [a]) (new_task cfg i f) = Some t'"
    by (simp add: task_run_append)
  then show ?thesis unfolding task_reachable_def by blast
qed

lemma pc_promise_all_NotStarted: "pc (promise_all t) = NotStarted \<Longrightarrow> pc t = NotStarted"
  by (auto simp: promise_all_def prim_defs split: if_splits list.splits js_error.splits)

text \<open>An event is delivered to a dispatched call only, and a settled call stays settled.\<close>

lemma pc_task_event:
  assumes "task_inv cfg t" and "task_event cfg ev t = Some t'"
  shows "pc t \<noteq> NotStarted \<and> pc t' \<noteq> NotStarted \<and> (pc t = Settled \<longrightarrow> pc t' = Settled)"
proof (cases ev)
  case (MD5Settled res)
  with assms(2) show ?thesis
    by (auto simp: task_event_def after_md5_def prim_defs Let_def
        split: if_splits sum.splits js_error.splits)
next
  case (CheckSettled out)
  with assms(2) have pc: "pc t = AwaitCheck" and t': "t' = after_check cfg out t"
    by (simp_all add: task_event_def split: if_splits)
  have "pc (after_check cfg out t) \<noteq> NotStarted"
  proof
    assume ns: "pc (after_check cfg out t) = NotStarted"
    show False
    proof (cases "http_json out")
      case (Inl e)
      with ns show False by (cases e) (simp_all add: after_check_def prim_defs)
    next
      case (Inr r)
      show False
      proof (cases "exists_r r")
        case True
        with Inr ns show False by (simp add: after_check_def prim_defs)
      next
        case False
        show False
        proof (cases "filter (\<lambda>i. i \<notin> set (uploadedChunks_r r)) [0..<totalChunks (item t)] = []")
          case True
          with Inr False ns show False by (simp add: after_check_def Let_def prim_defs)
        next
          case ne: False
          with Inr False ns have
            "pc (promise_all (fold (worker_loop cfg) [0..<concurrentChunks cfg]
               ((updateFileStatus (set_status Uploading
                  (t\<lparr>checkResult := Some r,
                     item := (item t)\<lparr>uploadedChunks := uploadedChunks_r r\<rparr>\<rparr>)))
                \<lparr>chunksToUpload := filter (\<lambda>i. i \<notin> set (uploadedChunks_r r))
                     [0..<totalChunks (item t)],
                  index := 0, workers := replicate (concurrentChunks cfg) WDone,
                  pc := AwaitChunks\<rparr>))) = NotStarted"
            by (simp add: after_check_def Let_def uploadChunksWithConcurrency_def prim_defs)
          from pc_promise_all_NotStarted [OF this] show False
            using frame_fold_worker_loop [of _ cfg "[0..<concurrentChunks cfg]"]
            by (simp add: frame_def)
        qed
      qed
    qed
  qed
  with pc t' show ?thesis by simp
next
  case (MergeSettled out)
  with assms(2) show ?thesis
    by (auto simp: task_event_def after_merge_def prim_defs
        split: if_splits sum.splits js_error.splits)
next
  case (ChunkSettled w out)
  then have "ev = ChunkSettled w out \<or> ev = TimerFired w" by simp
  from worker_event_shape [OF assms(2) this] obtain t1 where fr: "frame t t1"
    and t': "t' = promise_all t1" and w: "w < length (workers t)"
    and b: "workers t ! w \<noteq> WDone" by blast
  from busy_worker_pc [OF assms(1) w b] fr t' show ?thesis
    by (auto simp: frame_def promise_all_other dest: pc_promise_all_NotStarted)
next
  case (TimerFired w)
  then have "ev = ChunkSettled w (Rejected AbortError) \<or> ev = TimerFired w" by simp
  from worker_event_shape [OF assms(2) this] obtain t1 where fr: "frame t t1"
    and t': "t' = promise_all t1" and w: "w < length (workers t)"
    and b: "workers t ! w \<noteq> WDone" by blast
  from busy_worker_pc [OF assms(1) w b] fr t' show ?thesis
    by (auto simp: frame_def promise_all_other dest: pc_promise_all_NotStarted)
qed

lemma conf_processQueue: "conf (processQueue u) = conf u"
proof (induction u rule: processQueue.induct)
  case (1 u)
  show ?case
  proof (cases "uploadQueue u \<noteq> [] \<and> uploadingCount u < int (concurrentFiles (conf u))")
    case True
    with 1 show ?thesis by (subst processQueue.simps) simp
  next
    case False
    then show ?thesis by (subst processQueue.simps) auto
  qed
qed

lemma in_flight_processFile: "in_flight (processFile t)"
  by (simp add: in_flight_def processFile_def)

lemma uploader_inv_processQueue: "uploader_inv u \<Longrightarrow> uploader_inv (processQueue u)"
proof (induction u rule: processQueue.induct)
  case (1 u)
  show ?case
  proof (cases "uploadQueue u \<noteq> [] \<and> uploadingCount u < int (concurrentFiles (conf u))")
    case False
    then have "processQueue u = u" by (subst processQueue.simps) auto
    with "1.prems" show ?thesis by simp
  next
    case True
    then obtain r q where q: "uploadQueue u = r # q" by (cases "uploadQueue u") auto
    let ?u' = "u\<lparr>uploadQueue := tl (uploadQueue u),
                uploadingCount := uploadingCount u + 1,
                heap := (heap u)[hd (uploadQueue u) := processFile (heap u ! hd (uploadQueue u))]\<rparr>"
    from "1.prems" q have r: "r < length (heap u)" and ns: "pc (heap u ! r) = NotStarted"
      and pe: "status (item (heap u ! r)) = Pending"
      by (simp_all add: uploader_inv_def)
    from "1.prems" q have rq: "r \<notin> set q" and dq: "distinct q"
      by (simp_all add: uploader_inv_def)
    from ns have nf: "\<not> in_flight (heap u ! r)" by (simp add: in_flight_def)
    from length_filter_update [OF r, of in_flight "processFile (heap u ! r)"] nf
    have cnt: "length (filter in_flight ((heap u)[r := processFile (heap u ! r)]))
        = length (filter in_flight (heap u)) + 1"
      by (simp add: in_flight_processFile)
    have reach: "\<forall>t \<in> set ((heap u)[r := processFile (heap u ! r)]). task_reachable (conf u) t"
    proof
      fix t assume "t \<in> set ((heap u)[r := processFile (heap u ! r)])"
      then have "t = processFile (heap u ! r) \<or> t \<in> set (heap u)"
        using set_update_subset_insert [of "heap u" r "processFile (heap u ! r)"] by blast
      moreover have "task_reachable (conf u) (processFile (heap u ! r))"
      proof (rule task_reachable_step)
        show "task_reachable (conf u) (heap u ! r)"
          using "1.prems" r by (simp add: uploader_inv_def)
        show "task_step (conf u) Dispatch (heap u ! r) = Some (processFile (heap u ! r))"
          using ns pe by (simp add: task_step_def)
      qed
      ultimately show "task_reachable (conf u) t"
        using "1.prems" by (auto simp: uploader_inv_def)
    qed
    have qs: "\<forall>r' \<in> set q. r' < length (heap u)
        \<and> pc ((heap u)[r := processFile (heap u ! r)] ! r') = NotStarted
        \<and> status (item ((heap u)[r := processFile (heap u ! r)] ! r')) = Pending"
    proof
      fix r' assume r': "r' \<in> set q"
      with rq have "r' \<noteq> r" by auto
      with r' "1.prems" q show "r' < length (heap u)
        \<and> pc ((heap u)[r := processFile (heap u ! r)] ! r') = NotStarted
        \<and> status (item ((heap u)[r := processFile (heap u ! r)] ! r')) = Pending"
        by (simp add: uploader_inv_def)
    qed
    have "uploader_inv ?u'"
      using "1.prems" True q cnt reach qs dq
      by (simp add: uploader_inv_def)
    from "1.IH" [OF True this] True show ?thesis
      by (subst processQueue.simps) simp
  qed
qed

lemma conf_addFiles: "conf (addFiles fileList u) = conf u"
  by (simp add: addFiles_def Let_def conf_processQueue)

lemma uploader_invD:
  assumes "uploader_inv u"
  shows "uploadingCount u = int (length (filter in_flight (heap u)))"
    and "uploadingCount u \<le> int (concurrentFiles (conf u))"
    and "distinct (uploadQueue u)"
    and "\<And>r. r \<in> set (uploadQueue u) \<Longrightarrow> r < length (heap u)"
    and "\<And>r. r \<in> set (uploadQueue u) \<Longrightarrow> pc (heap u ! r) = NotStarted"
    and "\<And>r. r \<in> set (uploadQueue u) \<Longrightarrow> status (item (heap u ! r)) = Pending"
    and "\<And>r. r \<in> set (files u) \<Longrightarrow> r < length (heap u)"
    and "\<And>t. t \<in> set (heap u) \<Longrightarrow> task_reachable (conf u) t"
  using assms unfolding uploader_inv_def by blast+

lemma uploader_invI:
  assumes "uploadingCount u = int (length (filter in_flight (heap u)))"
    and "uploadingCount u \<le> int (concurrentFiles (conf u))"
    and "distinct (uploadQueue u)"
    and "\<And>r. r \<in> set (uploadQueue u) \<Longrightarrow> r < length (heap u) \<and> pc (heap u ! r) = NotStarted
          \<and> status (item (heap u ! r)) = Pending"
    and "\<And>r. r \<in> set (files u) \<Longrightarrow> r < length (heap u)"
    and "\<And>t. t \<in> set (heap u) \<Longrightarrow> task_reachable (conf u) t"
  shows "uploader_inv u"
  using assms unfolding uploader_inv_def by blast

lemma uploader_inv_addFiles:
  assumes "uploader_inv u"
  shows "uploader_inv (addFiles fileList u)"
proof -
  let ?n = "length (heap u)"
  let ?ids = "[?n..<?n + length fileList]"
  let ?new = "map (\<lambda>(i, f). new_task (conf u) i f) (zip ?ids fileList)"
  let ?u1 = "u\<lparr>heap := heap u @ ?new, files := files u @ ?ids,
              uploadQueue := uploadQueue u @ ?ids\<rparr>"
  note inv = uploader_invD [OF assms]
  have new_nth: "?new ! k = new_task (conf u) (?n + k) (fileList ! k)" if "k < length fileList" for k
    using that by simp
  have "\<not> in_flight t" if "t \<in> set ?new" for t
  proof -
    from that obtain i f where "t = new_task (conf u) i f" by auto
    then show ?thesis by (simp add: in_flight_def new_task_def)
  qed
  then have nf: "filter in_flight ?new = []" by (simp add: filter_empty_conv)
  have "uploader_inv ?u1"
  proof (rule uploader_invI)
    show "uploadingCount ?u1 = int (length (filter in_flight (heap ?u1)))"
      using inv(1) nf by simp
    show "uploadingCount ?u1 \<le> int (concurrentFiles (conf ?u1))"
      using inv(2) by simp
    have "set (uploadQueue u) \<inter> set ?ids = {}"
      using inv(4) by fastforce
    then show "distinct (uploadQueue ?u1)" using inv(3) by simp
    show "r < length (heap ?u1) \<and> pc (heap ?u1 ! r) = NotStarted
          \<and> status (item (heap ?u1 ! r)) = Pending" if "r \<in> set (uploadQueue ?u1)" for r
    proof -
      from that consider "r \<in> set (uploadQueue u)" | "?n \<le> r" "r < ?n + length fileList"
        by auto
      then show ?thesis
      proof cases
        case 1
        from inv(4,5,6) [OF 1] show ?thesis by (simp add: nth_append)
      next
        case 2
        then have k: "r - ?n < length fileList" by simp
        from 2 have "(heap u @ ?new) ! r = ?new ! (r - ?n)" by (simp add: nth_append)
        also from new_nth [OF k]
        have "\<dots> = new_task (conf u) (?n + (r - ?n)) (fileList ! (r - ?n))" .
        finally show ?thesis using 2 by (simp add: new_task_def new_item_def)
      qed
    qed
    show "r < length (heap ?u1)" if "r \<in> set (files ?u1)" for r
    proof -
      from that consider "r \<in> set (files u)" | "r < ?n + length fileList" by auto
      then show ?thesis
      proof cases
        case 1
        from inv(7) [OF 1] show ?thesis by simp
      next
        case 2
        then show ?thesis by simp
      qed
    qed
    show "task_reachable (conf ?u1) t" if "t \<in> set (heap ?u1)" for t
    proof -
      from that consider "t \<in> set (heap u)" | "t \<in> set ?new" by auto
      then show ?thesis
      proof cases
        case 1
        from inv(8) [OF 1] show ?thesis by simp
      next
        case 2
        then obtain i f where "t = new_task (conf u) i f" by auto
        then show ?thesis by (simp add: task_reachable_new)
      qed
    qed
  qed
  then have "uploader_inv (processQueue ?u1)" by (rule uploader_inv_processQueue)
  then show ?thesis by (simp add: addFiles_def Let_def)
qed

lemma cancel_item_pc: "pc (cancel_item t) = pc t"
  by (simp add: cancel_item_def prim_defs)

lemma destroy_item_pc: "pc (destroy_item t) = pc t"
  by (simp add: destroy_item_def)

lemma in_flight_cong: "pc t' = pc t \<Longrightarrow> in_flight t' = in_flight t"
  by (simp add: in_flight_def)

lemma uploader_inv_update_same_pc:
  assumes "uploader_inv u" and "r < length (heap u)" and "pc t' = pc (heap u ! r)"
    and "task_reachable (conf u) t'" and "r \<notin> set (uploadQueue u)"
  shows "uploader_inv (u\<lparr>heap := (heap u)[r := t']\<rparr>)"
proof -
  from length_filter_update [OF assms(2), of in_flight t'] in_flight_cong [OF assms(3)]
  have cnt: "length (filter in_flight ((heap u)[r := t'])) = length (filter in_flight (heap u))"
    by simp
  have reach: "\<forall>t \<in> set ((heap u)[r := t']). task_reachable (conf u) t"
  proof
    fix t assume "t \<in> set ((heap u)[r := t'])"
    then have "t = t' \<or> t \<in> set (heap u)"
      using set_update_subset_insert [of "heap u" r t'] by blast
    with assms(1,4) show "task_reachable (conf u) t" by (auto simp: uploader_inv_def)
  qed
  have qs: "\<forall>r' \<in> set (uploadQueue u). r' < length (heap u)
      \<and> pc ((heap u)[r := t'] ! r') = NotStarted
      \<and> status (item ((heap u)[r := t'] ! r')) = Pending"
  proof
    fix r' assume r': "r' \<in> set (uploadQueue u)"
    with assms(5) have "r' \<noteq> r" by auto
    with r' assms(1) show "r' < length (heap u)
      \<and> pc ((heap u)[r := t'] ! r') = NotStarted
      \<and> status (item ((heap u)[r := t'] ! r')) = Pending"
      by (simp add: uploader_inv_def)
  qed
  from assms(1) cnt reach qs show ?thesis by (simp add: uploader_inv_def)
qed

lemma uploader_inv_filter_queue:
  "uploader_inv u \<Longrightarrow> uploader_inv (u\<lparr>uploadQueue := filter P (uploadQueue u)\<rparr>)"
  by (simp add: uploader_inv_def)

lemma conf_cancelUpload: "conf (cancelUpload fileId u) = conf u"
  by (simp add: cancelUpload_def)

lemma uploader_inv_cancelUpload:
  assumes "uploader_inv u"
  shows "uploader_inv (cancelUpload fileId u)"
proof (cases "fileId \<in> set (files u)")
  case False
  with assms show ?thesis by (simp add: cancelUpload_def)
next
  case True
  with assms have r: "fileId < length (heap u)" by (simp add: uploader_inv_def)
  let ?t = "heap u ! fileId"
  from assms r have "task_reachable (conf u) ?t" by (simp add: uploader_inv_def)
  then have reach: "task_reachable (conf u) (cancel_item ?t)"
    by (rule task_reachable_step [where a = CancelUpload]) (simp add: task_step_def)
  show ?thesis
  proof (cases "status (item ?t) = Pending")
    case pend: True
    let ?u1 = "u\<lparr>uploadQueue := filter (\<lambda>r. r \<noteq> fileId) (uploadQueue u)\<rparr>"
    from assms have "uploader_inv ?u1" by (rule uploader_inv_filter_queue)
    moreover have "fileId < length (heap ?u1)" using r by simp
    moreover have "pc (cancel_item ?t) = pc (heap ?u1 ! fileId)" by (simp add: cancel_item_pc)
    moreover have "task_reachable (conf ?u1) (cancel_item ?t)" using reach by simp
    moreover have "fileId \<notin> set (uploadQueue ?u1)" by simp
    ultimately have "uploader_inv (?u1\<lparr>heap := (heap ?u1)[fileId := cancel_item ?t]\<rparr>)"
      by (rule uploader_inv_update_same_pc)
    with True pend show ?thesis by (simp add: cancelUpload_def)
  next
    case False
    with assms have nq: "fileId \<notin> set (uploadQueue u)" by (auto simp: uploader_inv_def)
    have "pc (cancel_item ?t) = pc (heap u ! fileId)" by (simp add: cancel_item_pc)
    with assms r have "uploader_inv (u\<lparr>heap := (heap u)[fileId := cancel_item ?t]\<rparr>)"
      using reach nq by (rule uploader_inv_update_same_pc)
    with True False show ?thesis by (simp add: cancelUpload_def)
  qed
qed

lemma conf_destroy: "conf (destroy u) = conf u"
  by (simp add: destroy_def)

lemma uploader_inv_destroy:
  assumes "uploader_inv u"
  shows "uploader_inv (destroy u)"
proof -
  have "length (filter in_flight (map destroy_item xs)) = length (filter in_flight xs)" for xs
    by (induction xs) (simp_all add: in_flight_def destroy_item_pc)
  then have cnt: "length (filter in_flight (map destroy_item (heap u)))
      = length (filter in_flight (heap u))" .
  have reach: "\<forall>t \<in> set (heap u). task_reachable (conf u) (destroy_item t)"
  proof
    fix t assume "t \<in> set (heap u)"
    with assms have "task_reachable (conf u) t" by (simp add: uploader_inv_def)
    then show "task_reachable (conf u) (destroy_item t)"
      by (rule task_reachable_step [where a = Destroy]) (simp add: task_step_def)
  qed
  from assms cnt reach show ?thesis by (simp add: uploader_inv_def destroy_def)
qed

lemma conf_deliver: "deliver r ev u = Some u' \<Longrightarrow> conf u' = conf u"
  by (auto simp: deliver_def conf_processQueue split: if_splits option.splits)

lemma uploader_inv_deliver:
  assumes "uploader_inv u" and "deliver r ev u = Some u'"
  shows "uploader_inv u'"
proof -
  note inv = uploader_invD [OF assms(1)]
  from assms(2) obtain t' where r: "r < length (heap u)"
    and ev: "task_event (conf u) ev (heap u ! r) = Some t'"
    by (auto simp: deliver_def split: if_splits option.splits)
  let ?t = "heap u ! r"
  from r have mem: "?t \<in> set (heap u)" by simp
  from inv(8) [OF mem] have reach: "task_reachable (conf u) ?t" .
  then have tinv: "task_inv (conf u) ?t" by (rule task_reachable_inv)
  from pc_task_event [OF tinv ev] have ns: "pc ?t \<noteq> NotStarted" and ns': "pc t' \<noteq> NotStarted"
    and st: "pc ?t = Settled \<longrightarrow> pc t' = Settled"
    by simp_all
  from ns inv(5) have nq: "r \<notin> set (uploadQueue u)" by blast
  have reach': "task_reachable (conf u) t'"
    using reach by (rule task_reachable_step [where a = "Deliver ev"]) (simp add: task_step_def ev)
  show ?thesis
  proof (cases "pc ?t \<noteq> Settled \<and> pc t' = Settled")
    case False
    with ns ns' st have "in_flight t' = in_flight ?t" by (auto simp: in_flight_def)
    from length_filter_update [OF r, of in_flight t'] this
    have cnt: "length (filter in_flight ((heap u)[r := t'])) = length (filter in_flight (heap u))"
      by simp
    have "uploader_inv (u\<lparr>heap := (heap u)[r := t']\<rparr>)"
    proof (rule uploader_invI)
      show "uploadingCount (u\<lparr>heap := (heap u)[r := t']\<rparr>)
          = int (length (filter in_flight (heap (u\<lparr>heap := (heap u)[r := t']\<rparr>))))"
        using inv(1) cnt by simp
      show "uploadingCount (u\<lparr>heap := (heap u)[r := t']\<rparr>)
          \<le> int (concurrentFiles (conf (u\<lparr>heap := (heap u)[r := t']\<rparr>)))"
        using inv(2) by simp
      show "distinct (uploadQueue (u\<lparr>heap := (heap u)[r := t']\<rparr>))" using inv(3) by simp
      show "q < length (heap (u\<lparr>heap := (heap u)[r := t']\<rparr>))
          \<and> pc (heap (u\<lparr>heap := (heap u)[r := t']\<rparr>) ! q) = NotStarted
          \<and> status (item (heap (u\<lparr>heap := (heap u)[r := t']\<rparr>) ! q)) = Pending"
        if "q \<in> set (uploadQueue (u\<lparr>heap := (heap u)[r := t']\<rparr>))" for q
      proof -
        from that have q: "q \<in> set (uploadQueue u)" by simp
        with nq have "q \<noteq> r" by auto
        with inv(4,5,6) [OF q] show ?thesis by simp
      qed
      show "q < length (heap (u\<lparr>heap := (heap u)[r := t']\<rparr>))"
        if "q \<in> set (files (u\<lparr>heap := (heap u)[r := t']\<rparr>))" for q
        using that inv(7) by simp
      show "task_reachable (conf (u\<lparr>heap := (heap u)[r := t']\<rparr>)) t"
        if "t \<in> set (heap (u\<lparr>heap := (heap u)[r := t']\<rparr>))" for t
      proof -
        from that have "t = t' \<or> t \<in> set (heap u)"
          using set_update_subset_insert [of "heap u" r t'] by auto
        with reach' inv(8) show ?thesis by auto
      qed
    qed
    moreover from assms(2) r ev False have "u' = u\<lparr>heap := (heap u)[r := t']\<rparr>"
      by (auto simp: deliver_def)
    ultimately show ?thesis by simp
  next
    case True
    with ns have fl: "in_flight ?t" and nfl: "\<not> in_flight t'" by (simp_all add: in_flight_def)
    from length_filter_update [OF r, of in_flight t'] fl nfl
    have cnt: "length (filter in_flight ((heap u)[r := t'])) + 1 = length (filter in_flight (heap u))"
      by simp
    let ?u1 = "u\<lparr>heap := (heap u)[r := t'], uploadingCount := uploadingCount u - 1\<rparr>"
    have "uploader_inv ?u1"
    proof (rule uploader_invI)
      show "uploadingCount ?u1 = int (length (filter in_flight (heap ?u1)))"
        using inv(1) cnt by simp
      show "uploadingCount ?u1 \<le> int (concurrentFiles (conf ?u1))"
        using inv(2) by simp
      show "distinct (uploadQueue ?u1)" using inv(3) by simp
      show "q < length (heap ?u1) \<and> pc (heap ?u1 ! q) = NotStarted
          \<and> status (item (heap ?u1 ! q)) = Pending"
        if "q \<in> set (uploadQueue ?u1)" for q
      proof -
        from that have q: "q \<in> set (uploadQueue u)" by simp
        with nq have "q \<noteq> r" by auto
        with inv(4,5,6) [OF q] show ?thesis by simp
      qed
      show "q < length (heap ?u1)" if "q \<in> set (files ?u1)" for q
        using that inv(7) by simp
      show "task_reachable (conf ?u1) t" if "t \<in> set (heap ?u1)" for t
      proof -
        from that have "t = t' \<or> t \<in> set (heap u)"
          using set_update_subset_insert [of "heap u" r t'] by auto
        with reach' inv(8) show ?thesis by auto
      qed
    qed
    then have "uploader_inv (processQueue ?u1)" by (rule uploader_inv_processQueue)
    moreover from assms(2) r ev True have "u' = processQueue ?u1"
      by (auto simp: deliver_def)
    ultimately show ?thesis by simp
  qed
qed

lemma uploader_inv_step:
  assumes "uploader_inv u" and "step x u = Some u'"
  shows "uploader_inv u' \<and> conf u' = conf u"
proof (cases x)
  case (Call_addFiles fileList)
  with assms(2) have "u' = addFiles fileList u" by (simp add: step_def)
  with assms(1) show ?thesis by (simp add: uploader_inv_addFiles conf_addFiles)
next
  case (Call_cancelUpload fileId)
  with assms(2) have "u' = cancelUpload fileId u" by (simp add: step_def)
  with assms(1) show ?thesis by (simp add: uploader_inv_cancelUpload conf_cancelUpload)
next
  case Call_destroy
  with assms(2) have "u' = destroy u" by (simp add: step_def)
  with assms(1) show ?thesis by (simp add: uploader_inv_destroy conf_destroy)
next
  case (Env r ev)
  with assms(2) have "deliver r ev u = Some u'" by (simp add: step_def)
  with assms(1) show ?thesis by (simp add: uploader_inv_deliver conf_deliver)
qed

lemma uploader_inv_run:
  "uploader_inv u \<Longrightarrow> run xs u = Some u' \<Longrightarrow> uploader_inv u' \<and> conf u' = conf u"
proof (induction xs arbitrary: u)
  case Nil
  then show ?case by simp
next
  case (Cons x xs)
  from Cons.prems(2) obtain u1 where s: "step x u = Some u1" and r: "run xs u1 = Some u'"
    by (simp split: option.splits)
  from uploader_inv_step [OF Cons.prems(1) s] have "uploader_inv u1" and "conf u1 = conf u"
    by simp_all
  with Cons.IH [OF this(1) r] show ?case by simp
qed

lemma uploader_inv_FileUploader: "FileUploader opts = Inr u \<Longrightarrow> uploader_inv u"
  by (auto simp: FileUploader_def uploader_inv_def split: if_splits)

lemma active_uploads_le: "active_uploads t \<le> length (workers t)"
  by (simp add: active_uploads_def)

text \<open>
  Claim C2. In every state the uploader reaches from its construction, through any calls
  of \<open>addFiles\<close>, \<open>cancelUpload\<close>, \<open>destroy\<close> and any events: the number of calls in flight
  is at most \<open>concurrentFiles\<close> (and \<open>uploadingCount\<close> is that number), and every item has
  at most \<open>concurrentChunks\<close> chunk uploads active.
\<close>

theorem concurrency_bounds:
  assumes "FileUploader opts = Inr u0" and "run xs u0 = Some u"
  shows "length (filter in_flight (heap u)) \<le> concurrentFiles (conf u)
    \<and> uploadingCount u = int (length (filter in_flight (heap u)))
    \<and> (\<forall>t \<in> set (heap u). active_uploads t \<le> concurrentChunks (conf u))"
proof -
  from assms(1) have "uploader_inv u0" by (rule uploader_inv_FileUploader)
  from uploader_inv_run [OF this assms(2)] have inv: "uploader_inv u" by simp
  note d = uploader_invD [OF inv]
  from d(1,2) have a: "length (filter in_flight (heap u)) \<le> concurrentFiles (conf u)" by simp
  have b: "\<forall>t \<in> set (heap u). active_uploads t \<le> concurrentChunks (conf u)"
  proof
    fix t assume "t \<in> set (heap u)"
    from d(8) [OF this] have "task_inv (conf u) t" by (rule task_reachable_inv)
    then have "length (workers t) \<le> concurrentChunks (conf u)" by (simp add: task_inv_def)
    with active_uploads_le [of t] show "active_uploads t \<le> concurrentChunks (conf u)" by simp
  qed
  from a b d(1) show ?thesis by simp
qed

section \<open>Scenarios and witnesses\<close>

lemmas run_defs = task_step_def task_event_def after_md5_def after_check_def after_merge_def
  after_chunk_def after_sleep_def processFile_def new_task_def new_item_def
  emit_def updateFileStatus_def set_status_def set_worker_def
  catch_clause_def succeed_def call_mergeFile_def http_json_def ok_def abort_consistent_def
  promise_all_def uploadChunksWithConcurrency_def worker_loop_def uploadChunk_def
  retry_head_def chunk_uploaded_def cancel_item_def destroy_item_def thrown_def
  attempt_def Let_def

lemmas demo_defs = demo_cfg_def demo_file_def check_exists_def check_resume_def checked_def
  start_trace_def demo_opts_def demo_uploader_def resume_trace_def failing_trace_def
  cancelled_checking_def zero_file_def run_or_new_def

lemma demo_FileUploader: "FileUploader demo_opts = Inr demo_uploader"
  by (simp add: FileUploader_def demo_defs make_config_def or_default_def falsy_def)

lemma t_c4: "task_run demo_cfg (start_trace check_exists) (new_task demo_cfg 0 demo_file) = Some (checked check_exists)"
  by (simp add: demo_defs run_defs)

text \<open>
  Scenario 3 of the specification: the check answers \<open>exists = true\<close>; the only request is
  the check.
\<close>

theorem instant_transfer_no_upload_no_merge_witness:
  "task_run demo_cfg (start_trace check_exists) (new_task demo_cfg 0 demo_file)
     = Some (checked check_exists)
   \<and> checkResult (checked check_exists) = Some check_exists \<and> exists_r check_exists
   \<and> status (item (checked check_exists)) = Success
   \<and> progress (item (checked check_exists)) = 100
   \<and> requests (effects (checked check_exists)) = [FetchCheck (Some ''d41d'') ''a.bin'']"
proof -
  have r: "task_run demo_cfg (start_trace check_exists) (new_task demo_cfg 0 demo_file)
     = Some (checked check_exists)"
    by (simp add: demo_defs run_defs)
  have c: "checkResult (checked check_exists) = Some check_exists"
    by (simp add: demo_defs run_defs)
  have e: "exists_r check_exists" by (simp add: demo_defs)
  have q: "requests (effects (checked check_exists)) = [FetchCheck (Some ''d41d'') ''a.bin'']"
    by (simp add: demo_defs run_defs requests_def)
  from instant_transfer_no_upload_no_merge [OF r c e] r c e q show ?thesis by simp
qed

text \<open>
  Scenario 2 of the specification: the check reports chunks 0 and 1 of 3; chunk 2 is
  uploaded and the merge is requested with \<open>uploadedChunks = [0, 1, 2]\<close>.
\<close>

theorem merge_issued_with_all_chunks_witness:
  "FileUploader demo_opts = Inr demo_uploader
   \<and> task_run (conf demo_uploader) resume_trace (new_task (conf demo_uploader) 0 demo_file)
       = Some (run_or_new resume_trace)
   \<and> pc (run_or_new resume_trace) = AwaitMerge
   \<and> checkResult (run_or_new resume_trace) = Some (check_resume [0, 1])
   \<and> distinct (uploadedChunks_r (check_resume [0, 1]))
   \<and> set (uploadedChunks_r (check_resume [0, 1])) \<subseteq> {0..<totalChunks (item (run_or_new resume_trace))}
   \<and> uploadedChunks (item (run_or_new resume_trace)) = [0, 1, 2]
   \<and> totalChunks (item (run_or_new resume_trace)) = 3
   \<and> distinct (uploadedChunks (item (run_or_new resume_trace)))
   \<and> set (uploadedChunks (item (run_or_new resume_trace)))
       = {0..<totalChunks (item (run_or_new resume_trace))}"
proof -
  have cf: "conf demo_uploader = demo_cfg" by (simp add: demo_uploader_def)
  have r: "task_run (conf demo_uploader) resume_trace (new_task (conf demo_uploader) 0 demo_file)
       = Some (run_or_new resume_trace)"
    unfolding cf by code_simp
  have p: "pc (run_or_new resume_trace) = AwaitMerge" by code_simp
  have c: "checkResult (run_or_new resume_trace) = Some (check_resume [0, 1])" by code_simp
  have d: "distinct (uploadedChunks_r (check_resume [0, 1]))" by (simp add: check_resume_def)
  have tc: "totalChunks (item (run_or_new resume_trace)) = 3" by code_simp
  have s: "set (uploadedChunks_r (check_resume [0, 1]))
      \<subseteq> {0..<totalChunks (item (run_or_new resume_trace))}"
    unfolding tc by (simp add: check_resume_def)
  have u: "uploadedChunks (item (run_or_new resume_trace)) = [0, 1, 2]" by code_simp
  from merge_issued_with_all_chunks [OF demo_FileUploader r p c d s] r p c d s u tc
    demo_FileUploader
  show ?thesis by simp
qed

text \<open>
  Three files added with \<open>concurrentFiles = 2\<close>: two calls are dispatched, the third item
  waits in the queue.
\<close>

theorem concurrency_bounds_witness:
  "FileUploader demo_opts = Inr demo_uploader
   \<and> run [Call_addFiles [demo_file, demo_file, demo_file]] demo_uploader
       = Some (addFiles [demo_file, demo_file, demo_file] demo_uploader)
   \<and> map pc (heap (addFiles [demo_file, demo_file, demo_file] demo_uploader))
       = [AwaitMD5, AwaitMD5, NotStarted]
   \<and> uploadQueue (addFiles [demo_file, demo_file, demo_file] demo_uploader) = [2]
   \<and> concurrentFiles (conf (addFiles [demo_file, demo_file, demo_file] demo_uploader)) = 2
   \<and> length (filter in_flight (heap (addFiles [demo_file, demo_file, demo_file] demo_uploader)))
       \<le> concurrentFiles (conf (addFiles [demo_file, demo_file, demo_file] demo_uploader))
   \<and> map active_uploads (heap (addFiles [demo_file, demo_file, demo_file] demo_uploader))
       = [0, 0, 0]"
proof -
  have r: "run [Call_addFiles [demo_file, demo_file, demo_file]] demo_uploader
       = Some (addFiles [demo_file, demo_file, demo_file] demo_uploader)"
    by (simp add: step_def)
  have p: "map pc (heap (addFiles [demo_file, demo_file, demo_file] demo_uploader))
       = [AwaitMD5, AwaitMD5, NotStarted]"
    by code_simp
  have q: "uploadQueue (addFiles [demo_file, demo_file, demo_file] demo_uploader) = [2]"
    by code_simp
  have c: "concurrentFiles (conf (addFiles [demo_file, demo_file, demo_file] demo_uploader)) = 2"
    by code_simp
  have a: "map active_uploads (heap (addFiles [demo_file, demo_file, demo_file] demo_uploader))
       = [0, 0, 0]"
    by code_simp
  from concurrency_bounds [OF demo_FileUploader r] r p q c a demo_FileUploader
  show ?thesis by simp
qed

text \<open>
  After a chunk upload returns, \<open>uploadChunk\<close> does recompute the progress from the chunks
  recorded.
\<close>

lemma progress_after_chunk_uploaded:
  "progress (item (chunk_uploaded cfg w c t))
     = round_percent (length (uploadedChunks (item (chunk_uploaded cfg w c t))))
         (totalChunks (item (chunk_uploaded cfg w c t)))"
  by (simp add: chunk_uploaded_def worker_loop_def uploadChunk_def retry_head_def prim_defs
        Let_def)

text \<open>
  Claim C3. Whenever a notification can be emitted, the progress is to be the rounded
  percentage of uploaded chunks, in particular right after the check installs the
  reported chunks. A 5-byte file in chunks of 2 bytes has 3 chunks; the check reports
  chunks 0 and 1 as stored. The notification for \<open>uploading\<close> carries
  \<open>uploadedChunks = [0, 1]\<close> and \<open>progress = 0\<close>, where the rounded percentage is 67:
  \<open>processFile\<close> installs the reported chunks without recomputing the progress.
\<close>

theorem progress_stale_after_resume_check:
  "task_run demo_cfg (start_trace (check_resume [0, 1])) (new_task demo_cfg 0 demo_file)
     = Some (checked (check_resume [0, 1]))
   \<and> last (notifications (effects (checked (check_resume [0, 1]))))
       = item (checked (check_resume [0, 1]))
   \<and> status (item (checked (check_resume [0, 1]))) = Uploading
   \<and> uploadedChunks (item (checked (check_resume [0, 1]))) = [0, 1]
   \<and> totalChunks (item (checked (check_resume [0, 1]))) = 3
   \<and> progress (item (checked (check_resume [0, 1]))) = 0
   \<and> round_percent (length (uploadedChunks (item (checked (check_resume [0, 1])))))
         (totalChunks (item (checked (check_resume [0, 1])))) = 67"
  by code_simp

text \<open>
  Scenario 2 of the specification up to the merge request, which the server rejects with
  400; \<open>cancelUpload\<close> and \<open>destroy\<close> afterwards change nothing.
\<close>

theorem rejected_merge_is_error_not_retried_witness:
  "task_run demo_cfg resume_trace (new_task demo_cfg 0 demo_file) = Some merging_state
   \<and> status (item merging_state) = Merging
   \<and> \<not> aborted merging_state
   \<and> task_step demo_cfg (Deliver (MergeSettled missing_chunk)) merging_state
       = Some (after_merge missing_chunk merging_state)
   \<and> after_merge missing_chunk merging_state = rejected_state
   \<and> status (item rejected_state) = Error
   \<and> error (item rejected_state) = Some ''HTTP error! status: 400''
   \<and> task_run demo_cfg [CancelUpload, Destroy] (after_merge missing_chunk merging_state)
       = Some rejected_state
   \<and> merge_requests (effects rejected_state) = [FetchMerge (Some ''d41d'') ''a.bin'' 3]"
proof -
  have r: "task_run demo_cfg resume_trace (new_task demo_cfg 0 demo_file) = Some merging_state"
    by code_simp
  have s: "status (item merging_state) = Merging" "\<not> aborted merging_state"
    by (simp_all add: merging_state_def demo_item_def)
  then have h2: "status (item merging_state) = Merging \<or> pc merging_state = AwaitMerge"
    and h3: "abort_consistent merging_state missing_chunk"
    by (simp_all add: abort_consistent_def missing_chunk_def)
  have h4: "http_json missing_chunk = Inl (Err ''HTTP error! status: 400'')"
    by code_simp
  have a: "after_merge missing_chunk merging_state = rejected_state"
    by code_simp
  have h5: "task_run demo_cfg [CancelUpload, Destroy] (after_merge missing_chunk merging_state)
      = Some rejected_state"
    unfolding a by code_simp
  have e: "status (item rejected_state) = Error"
    "error (item rejected_state) = Some ''HTTP error! status: 400''"
    "merge_requests (effects rejected_state) = [FetchMerge (Some ''d41d'') ''a.bin'' 3]"
    by (simp_all add: rejected_state_def merging_state_def demo_item_def demo_chunk_def
          merge_requests_def)
  from rejected_merge_is_error_not_retried [OF r h2 h3 h4 h5] r s a h5 e
  show ?thesis by simp
qed

text \<open>The body of a merge response is not read: an \<open>ok\<close> status alone makes the success.\<close>

lemma merge_response_body_not_read:
  assumes "ok st"
  shows "after_merge (Response st b) t = succeed t"
  using assms by (simp add: after_merge_def http_json_def)



text \<open>
  Claim C9. When a worker fails for good, its siblings are to be cancelled so that none
  claims a further index and no upload outlives the file. Two workers, three chunks,
  \<open>maxRetries = 1\<close>: worker 0 fails twice on chunk 0 and the file settles in \<open>error\<close>. The
  signal is not aborted and worker 1 is still uploading chunk 1; when that upload
  returns, worker 1 records it, notifies, claims chunk 2 and sends it, for a file that
  has already settled.
\<close>

theorem failed_worker_leaves_sibling_running:
  "task_run demo_cfg failing_trace (new_task demo_cfg 0 demo_file) = Some failed_state
   \<and> pc failed_state = Settled
   \<and> status (item failed_state) = Error
   \<and> \<not> aborted failed_state
   \<and> workers failed_state = [WThrown (Err ''HTTP error! status: 500''), WFetch 1 0]
   \<and> task_step demo_cfg (Deliver (ChunkSettled 1 (Response 200 ()))) failed_state
       = Some orphan_state
   \<and> workers orphan_state = [WThrown (Err ''HTTP error! status: 500''), WFetch 2 0]
   \<and> last (effects orphan_state) = demo_chunk 2 [5]
   \<and> uploadedChunks (item orphan_state) = [1]
   \<and> progress (item orphan_state) = 33
   \<and> status (item orphan_state) = Error
   \<and> map status (notifications (effects orphan_state)) = [Checking, Uploading, Error, Error]"
proof -
  have a: "task_run demo_cfg failing_trace (new_task demo_cfg 0 demo_file) = Some failed_state"
    by code_simp
  have b: "task_step demo_cfg (Deliver (ChunkSettled 1 (Response 200 ()))) failed_state
      = Some orphan_state"
    by code_simp
  have c: "pc failed_state = Settled" "status (item failed_state) = Error"
    "\<not> aborted failed_state"
    "workers failed_state = [WThrown (Err ''HTTP error! status: 500''), WFetch 1 0]"
    by (simp_all add: failed_state_def demo_item_def)
  have d: "workers orphan_state = [WThrown (Err ''HTTP error! status: 500''), WFetch 2 0]"
    "last (effects orphan_state) = demo_chunk 2 [5]"
    "uploadedChunks (item orphan_state) = [1]" "progress (item orphan_state) = 33"
    "status (item orphan_state) = Error"
    "map status (notifications (effects orphan_state)) = [Checking, Uploading, Error, Error]"
    by (simp_all add: orphan_state_def failed_state_def demo_item_def notifications_def
          demo_chunk_def)
  from a b c d show ?thesis by simp
qed

lemma ceil_div_zero: "ceil_div 0 d = 0"
  by (cases "d = 0") (simp_all add: ceil_div_def)

text \<open>
  Claim C10 as stated (a zero-byte file settles to \<open>success\<close> once its merge is requested)
  fails when the merge is not answered with an \<open>ok\<close> status. The reference server answers
  500 to a merge with \<open>totalChunks = 0\<close> (it removes a directory of chunks that was never
  created); the task then settles to \<open>error\<close> with progress 0.
\<close>

theorem zero_byte_file_merge_rejected:
  "file_bytes zero_file = []
   \<and> totalChunks (item (new_task demo_cfg 0 zero_file)) = 0
   \<and> \<not> exists_r (check_resume [])
   \<and> task_run demo_cfg (zero_trace server_error) (new_task demo_cfg 0 zero_file) = Some zero_rejected
   \<and> requests (effects zero_rejected)
       = [FetchCheck (Some ''d41d'') ''empty.txt'', FetchMerge (Some ''d41d'') ''empty.txt'' 0]
   \<and> pc zero_rejected = Settled
   \<and> status (item zero_rejected) = Error
   \<and> progress (item zero_rejected) = 0
   \<and> error (item zero_rejected) = Some ''HTTP error! status: 500''"
proof -
  have a: "task_run demo_cfg (zero_trace server_error) (new_task demo_cfg 0 zero_file) = Some zero_rejected"
    by code_simp
  have b: "totalChunks (item (new_task demo_cfg 0 zero_file)) = 0" by code_simp
  have c: "file_bytes zero_file = []" "\<not> exists_r (check_resume [])"
    "requests (effects zero_rejected)
       = [FetchCheck (Some ''d41d'') ''empty.txt'', FetchMerge (Some ''d41d'') ''empty.txt'' 0]"
    "pc zero_rejected = Settled" "status (item zero_rejected) = Error"
    "progress (item zero_rejected) = 0"
    "error (item zero_rejected) = Some ''HTTP error! status: 500''"
    by (simp_all add: zero_file_def check_resume_def zero_rejected_def zero_item_def
          requests_def)
  from a b c show ?thesis by simp
qed

text \<open>
  Claim C10, amended. A file of zero bytes has no chunk. When the check answers that the
  file does not exist, the only requests sent are the check and the merge with
  \<open>totalChunks = 0\<close>, and the task settles by the status of the merge response: to
  \<open>success\<close> with progress 100 when it is \<open>ok\<close>, and otherwise to \<open>error\<close> with progress 0 and
  the message \<open>HTTP error! status: N\<close>.
\<close>

theorem zero_byte_file_settles_by_merge_status:
  assumes "file_bytes f = []" and "ok st" and "\<not> exists_r r"
  shows "totalChunks (item (new_task cfg i f)) = 0
    \<and> task_run cfg [Dispatch, Deliver (MD5Settled (Inr d)), Deliver (CheckSettled (Response st r))]
          (new_task cfg i f)
        = Some (after_check cfg (Response st r) (after_md5 (Inr d) (processFile (new_task cfg i f))))
    \<and> pc (after_check cfg (Response st r) (after_md5 (Inr d) (processFile (new_task cfg i f))))
        = AwaitMerge
    \<and> requests (effects (after_check cfg (Response st r)
          (after_md5 (Inr d) (processFile (new_task cfg i f)))))
        = [FetchCheck (Some d) (file_name f), FetchMerge (Some d) (file_name f) 0]
    \<and> task_step cfg (Deliver (MergeSettled (Response st' b)))
          (after_check cfg (Response st r) (after_md5 (Inr d) (processFile (new_task cfg i f))))
        = Some (after_merge (Response st' b) (after_check cfg (Response st r)
                  (after_md5 (Inr d) (processFile (new_task cfg i f)))))
    \<and> status (item (after_merge (Response st' b) (after_check cfg (Response st r)
                  (after_md5 (Inr d) (processFile (new_task cfg i f))))))
        = (if ok st' then Success else Error)
    \<and> progress (item (after_merge (Response st' b) (after_check cfg (Response st r)
                  (after_md5 (Inr d) (processFile (new_task cfg i f))))))
        = (if ok st' then 100 else 0)
    \<and> error (item (after_merge (Response st' b) (after_check cfg (Response st r)
                  (after_md5 (Inr d) (processFile (new_task cfg i f))))))
        = (if ok st' then None else Some (''HTTP error! status: '' @ string_of_nat st'))
    \<and> pc (after_merge (Response st' b) (after_check cfg (Response st r)
                  (after_md5 (Inr d) (processFile (new_task cfg i f))))) = Settled
    \<and> requests (effects (after_merge (Response st' b) (after_check cfg (Response st r)
                  (after_md5 (Inr d) (processFile (new_task cfg i f))))))
        = [FetchCheck (Some d) (file_name f), FetchMerge (Some d) (file_name f) 0]"
proof -
  have tc: "totalChunks (item (new_task cfg i f)) = 0"
    using assms(1) by (simp add: new_task_def new_item_def ceil_div_zero file_size_def)
  let ?t1 = "after_check cfg (Response st r) (after_md5 (Inr d) (processFile (new_task cfg i f)))"
  have t1: "?t1 = call_mergeFile ((after_md5 (Inr d) (processFile (new_task cfg i f)))
      \<lparr>checkResult := Some r,
        item := (item (after_md5 (Inr d) (processFile (new_task cfg i f))))
          \<lparr>uploadedChunks := uploadedChunks_r r\<rparr>\<rparr>)"
    using assms(1,2,3)
    by (simp add: after_check_def http_json_def Let_def after_md5_def processFile_def
          new_task_def new_item_def ceil_div_zero file_size_def prim_defs)
  have run: "task_run cfg [Dispatch, Deliver (MD5Settled (Inr d)),
        Deliver (CheckSettled (Response st r))] (new_task cfg i f) = Some ?t1"
    by (simp add: task_step_def task_event_def new_task_def new_item_def processFile_def
          after_md5_def abort_consistent_def prim_defs Let_def)
  have pc1: "pc ?t1 = AwaitMerge" unfolding t1 by (simp add: prim_defs)
  have rq1: "requests (effects ?t1)
      = [FetchCheck (Some d) (file_name f), FetchMerge (Some d) (file_name f) 0]"
    unfolding t1 using assms(1)
    by (simp add: requests_def after_md5_def processFile_def new_task_def new_item_def
          ceil_div_zero file_size_def prim_defs Let_def)
  have ab1: "\<not> aborted ?t1" unfolding t1
    by (simp add: after_md5_def processFile_def new_task_def prim_defs Let_def)
  have pr1: "progress (item ?t1) = 0" "error (item ?t1) = None" unfolding t1
    by (simp_all add: after_md5_def processFile_def new_task_def new_item_def prim_defs Let_def)
  have st2: "task_step cfg (Deliver (MergeSettled (Response st' b))) ?t1
      = Some (after_merge (Response st' b) ?t1)"
    using pc1 ab1 by (simp add: task_step_def task_event_def abort_consistent_def)
  have am: "after_merge (Response st' b) ?t1
      = (if ok st' then succeed ?t1
         else catch_clause (Err (''HTTP error! status: '' @ string_of_nat st')) ?t1)"
    by (simp add: after_merge_def http_json_def http_error_def)
  have fin: "status (item (succeed ?t1)) = Success" "progress (item (succeed ?t1)) = 100"
    "pc (succeed ?t1) = Settled" "error (item (succeed ?t1)) = error (item ?t1)"
    "requests (effects (succeed ?t1)) = requests (effects ?t1)"
    by (simp_all add: prim_defs requests_def)
  have bad: "status (item (catch_clause (Err x) ?t1)) = Error"
    "progress (item (catch_clause (Err x) ?t1)) = progress (item ?t1)"
    "pc (catch_clause (Err x) ?t1) = Settled"
    "error (item (catch_clause (Err x) ?t1)) = Some x"
    "requests (effects (catch_clause (Err x) ?t1)) = requests (effects ?t1)" for x
    by (simp_all add: prim_defs requests_def)
  from tc run pc1 rq1 st2 fin bad pr1 show ?thesis unfolding am by simp
qed

text \<open>The file \<open>empty.txt\<close> of zero bytes, with a merge answered 200.\<close>

theorem zero_byte_file_settles_by_merge_status_witness:
  "file_bytes zero_file = [] \<and> ok 200 \<and> \<not> exists_r (check_resume [])
   \<and> totalChunks (item (new_task demo_cfg 0 zero_file)) = 0
   \<and> task_run demo_cfg (zero_trace merged) (new_task demo_cfg 0 zero_file)
      = Some (after_merge merged
          (after_check demo_cfg (Response 200 (check_resume []))
            (after_md5 (Inr ''d41d'') (processFile (new_task demo_cfg 0 zero_file)))))
   \<and> status (item (after_merge merged
          (after_check demo_cfg (Response 200 (check_resume []))
            (after_md5 (Inr ''d41d'') (processFile (new_task demo_cfg 0 zero_file)))))) = Success
   \<and> progress (item (after_merge merged
          (after_check demo_cfg (Response 200 (check_resume []))
            (after_md5 (Inr ''d41d'') (processFile (new_task demo_cfg 0 zero_file)))))) = 100
   \<and> requests (effects (after_merge merged
          (after_check demo_cfg (Response 200 (check_resume []))
            (after_md5 (Inr ''d41d'') (processFile (new_task demo_cfg 0 zero_file))))))
      = [FetchCheck (Some ''d41d'') ''empty.txt'', FetchMerge (Some ''d41d'') ''empty.txt'' 0]"
proof -
  have h1: "file_bytes zero_file = []" by (simp add: zero_file_def)
  have h2: "ok 200" by (simp add: ok_def)
  have h3: "\<not> exists_r (check_resume [])" by (simp add: check_resume_def)
  have n: "file_name zero_file = ''empty.txt''" by (simp add: zero_file_def)
  have r: "task_run demo_cfg (zero_trace merged) (new_task demo_cfg 0 zero_file)
      = Some (after_merge merged
          (after_check demo_cfg (Response 200 (check_resume []))
            (after_md5 (Inr ''d41d'') (processFile (new_task demo_cfg 0 zero_file)))))"
    by code_simp
  from zero_byte_file_settles_by_merge_status [OF h1 h2 h3,
      of demo_cfg 0 "''d41d''" 200 "\<lparr>success = True, path_m = Some ''/uploads/d41d_empty.txt''\<rparr>"]
    h1 h2 h3 n r
  show ?thesis by (simp add: merged_def)
qed

end
